theory Spec2Isabelle
  imports Main "HOL-Library.AList"
begin

section \<open>Values, dictionaries and the events table\<close>

text \<open>
  Python values that occur in an event dictionary and in a row of the \<open>events\<close> table:
  \<open>None\<close>, a \<open>str\<close>, a \<open>datetime\<close> (microseconds on the time line) and an \<open>int\<close>.
  A \<open>dict\<close> is an association list in insertion order; a well-formed one has distinct keys.
  An \<open>Event\<close> object (\<open>models.py\<close>) is the association of its attribute names to values, and
  the table is the list of its rows in insertion order.
\<close>

datatype val = VNone | VStr string | VTime int | VInt int

type_synonym dict = "(string \<times> val) list"
type_synonym Event = "(string \<times> val) list"

text \<open>
  The exceptions: \<open>StatementError\<close> and \<open>IntegrityError\<close> are raised by a flush,
  \<open>PendingRollbackError\<close> by every statement of a session whose flush has failed.
\<close>

datatype error =
  KeyError | TypeError | IntegrityError | StatementError | PendingRollbackError | Exception

text \<open>
  The SQLAlchemy session that the scrapers of one cycle share (\<open>self.db\<close>): the rows of the
  \<open>events\<close> table as the database holds them, and \<open>is_active\<close>, which is false from a failed
  flush until \<open>rollback()\<close>. Neither \<open>base.py\<close> nor \<open>scheduler.py\<close> calls \<open>rollback()\<close>, so a
  session that has become inactive stays so until the scheduler closes it.
\<close>

record Session =
  table :: "Event list"
  is_active :: bool

text \<open>
  \<open>SessionLocal()\<close>: \<open>database.py\<close> is not among the sources; the session it makes is taken to
  be a new, active session on the database, whose \<open>events\<close> table holds \<open>rows\<close>.
\<close>

definition SessionLocal :: "Event list \<Rightarrow> Session" where
  "SessionLocal rows = \<lparr>table = rows, is_active = True\<rparr>"

definition is_dict :: "dict \<Rightarrow> bool" where
  "is_dict d \<longleftrightarrow> distinct (map fst d)"

definition getattr :: "Event \<Rightarrow> string \<Rightarrow> val" where
  "getattr e k = (case map_of e k of Some v \<Rightarrow> v | None \<Rightarrow> VNone)"

definition setattr :: "Event \<Rightarrow> string \<Rightarrow> val \<Rightarrow> Event" where
  "setattr e k v = AList.update k v e"

text \<open>\<open>timedelta(days=n)\<close>, in microseconds.\<close>

definition timedelta_days :: "int \<Rightarrow> int" where
  "timedelta_days n = n * 86400000000"

text \<open>
  The columns of \<open>class Event\<close> in \<open>models.py\<close>, in declaration order, those that are
  \<open>nullable=False\<close> (the primary key \<open>id\<close> among them) and those of type \<open>DateTime\<close>.
\<close>

definition columns :: "string list" where
  "columns = [''id'', ''title'', ''date_time'', ''location'', ''description'', ''ticket_url'',
     ''image_url'', ''source'', ''created_at'', ''updated_at'', ''expires_at'', ''click_count'']"

definition not_null_columns :: "string list" where
  "not_null_columns = [''id'', ''title'', ''date_time'', ''location'', ''ticket_url'', ''source'']"

definition datetime_columns :: "string list" where
  "datetime_columns = [''date_time'', ''created_at'', ''updated_at'', ''expires_at'']"

text \<open>
  The other attributes of the class: the relationship \<open>emails\<close>, whose rows are in the
  \<open>emails\<close> table, and the names a declarative base gives a mapped class. An attribute of
  these is set on the object and is no part of its row.
\<close>

definition class_attributes :: "string list" where
  "class_attributes =
     columns @ [''emails'', ''metadata'', ''registry'', ''__tablename__'', ''__table__'', ''__mapper__'']"

text \<open>
  What a flush checks of a row. The \<open>DateTime\<close> type of the default database
  (\<open>sqlite\<close>, \<open>config.py\<close>) binds only a \<open>datetime\<close> or \<open>None\<close> and raises for any other value
  (\<open>row_typed\<close>); a \<open>String\<close>, \<open>Text\<close> or \<open>Integer\<close> column has no such check. The table
  rejects NULL in a \<open>nullable=False\<close> column (\<open>row_ok\<close>).
\<close>

definition row_typed :: "Event \<Rightarrow> bool" where
  "row_typed e \<longleftrightarrow>
     list_all (\<lambda>c. case getattr e c of VNone \<Rightarrow> True | VTime t \<Rightarrow> True | _ \<Rightarrow> False)
       datetime_columns"

definition row_ok :: "Event \<Rightarrow> bool" where
  "row_ok e \<longleftrightarrow> list_all (\<lambda>c. getattr e c \<noteq> VNone) not_null_columns"

text \<open>
  The state of the table that the database accepts: every row written through its column
  types, no NULL in a \<open>nullable=False\<close> column, a unique primary key \<open>id\<close>, and
  \<open>unique=True\<close> on \<open>ticket_url\<close>.
\<close>

definition table_ok :: "Event list \<Rightarrow> bool" where
  "table_ok rows \<longleftrightarrow>
     list_all row_typed rows \<and>
     list_all row_ok rows \<and>
     distinct (map (\<lambda>e. getattr e ''id'') rows) \<and>
     distinct (map (\<lambda>e. getattr e ''ticket_url'') rows)"

text \<open>
  \<open>db.commit()\<close> with pending changes that would leave the table as \<open>rows\<close>. In a session
  that is not active it raises \<open>PendingRollbackError\<close>. Otherwise the flush runs: a value
  that its column type cannot bind raises \<open>StatementError\<close>, a violated constraint raises
  \<open>IntegrityError\<close>; in both cases the transaction is rolled back, so the table is as it
  was, and the session is no longer active. A flush that succeeds is committed.
\<close>

definition commit :: "Event list \<Rightarrow> Session \<Rightarrow> (error + unit) \<times> Session" where
  "commit rows db =
     (if \<not> is_active db then (Inl PendingRollbackError, db)
      else if \<not> list_all row_typed rows then (Inl StatementError, db\<lparr>is_active := False\<rparr>)
      else if \<not> table_ok rows then (Inl IntegrityError, db\<lparr>is_active := False\<rparr>)
      else (Inr (), db\<lparr>table := rows\<rparr>))"

text \<open>The row the flush writes for an object: its column attributes.\<close>

definition persisted :: "Event \<Rightarrow> Event" where
  "persisted e = filter (\<lambda>(k, v). k \<in> set columns) e"

text \<open>The integer primary key the table gives a new row: one more than the largest in use.\<close>

definition next_id :: "Event list \<Rightarrow> int" where
  "next_id rows = fold (\<lambda>e m. case getattr e ''id'' of VInt n \<Rightarrow> max n m | _ \<Rightarrow> m) rows 0 + 1"

text \<open>
  The column defaults of \<open>models.py\<close>: \<open>created_at\<close> and \<open>updated_at\<close> have
  \<open>default=datetime.utcnow\<close>, each called on its own, at the clock readings \<open>now_created\<close>
  and \<open>now\<close>; \<open>click_count\<close> has \<open>default=0\<close>, \<open>id\<close> is assigned by the table; every other
  column is NULL.
\<close>

definition column_default :: "int \<Rightarrow> int \<Rightarrow> Event list \<Rightarrow> string \<Rightarrow> val" where
  "column_default now_created now rows c =
     (if c = ''id'' then VInt (next_id rows)
      else if c = ''created_at'' then VTime now_created
      else if c = ''updated_at'' then VTime now
      else if c = ''click_count'' then VInt 0
      else VNone)"

text \<open>
  \<open>Event(**event_data)\<close>: the declarative constructor sets every keyword that is an
  attribute of the class and raises \<open>TypeError\<close> for one that is not.
\<close>

definition Event_init :: "dict \<Rightarrow> error + Event" where
  "Event_init kwargs =
     (if list_all (\<lambda>(k, v). k \<in> set class_attributes) kwargs then Inr kwargs else Inl TypeError)"

text \<open>The row an INSERT writes: an attribute that is unset or \<open>None\<close> takes the column default.\<close>

definition inserted :: "int \<Rightarrow> int \<Rightarrow> Event list \<Rightarrow> Event \<Rightarrow> Event" where
  "inserted now_created now rows e =
     map (\<lambda>c. (c, case map_of e c of
                     Some v \<Rightarrow> (if v = VNone then column_default now_created now rows c else v)
                   | None \<Rightarrow> column_default now_created now rows c)) columns"

text \<open>
  \<open>db.refresh(new_event)\<close>: the object after the insert has the columns of its row and keeps
  the other attributes it was given.
\<close>

definition refreshed :: "Event \<Rightarrow> Event \<Rightarrow> Event" where
  "refreshed row e = row @ filter (\<lambda>(k, v). k \<notin> set columns) e"

section \<open>The scraper object\<close>

text \<open>
  \<open>urllib.robotparser.RobotFileParser\<close> of the Python standard library, as far as
  \<open>can_fetch\<close> reads it: the two flags, the time of the last successful read
  (\<open>last_checked\<close>, \<open>0\<close> until \<open>parse\<close> has run) and \<open>allowance\<close>, the decision of the
  parsed entries for a user agent and a url, which may raise.
\<close>

record RobotFileParser =
  disallow_all :: bool
  allow_all :: bool
  last_checked :: int
  allowance :: "string \<Rightarrow> string \<Rightarrow> error + bool"

record BaseScraper =
  source_name :: string
  base_url :: string
  delay :: nat
  timeout :: nat
  user_agent :: string
  robot_parser :: "RobotFileParser option"
  city :: string

section \<open>IngestionStore: \<open>check_duplicate\<close>, \<open>save_event\<close>, \<open>mark_expired_events\<close>\<close>

text \<open>
  \<open>check_duplicate\<close> (\<open>base.py\<close>, lines 73 to 83): the first row with the ticket url, or
  \<open>None\<close>; the query raises in a session that is not active.
\<close>

definition check_duplicate :: "Session \<Rightarrow> val \<Rightarrow> error + Event option" where
  "check_duplicate db ticket_url =
     (if is_active db then Inr (find (\<lambda>e. getattr e ''ticket_url'' = ticket_url) (table db))
      else Inl PendingRollbackError)"

text \<open>
  The loop of \<open>save_event\<close> over \<open>event_data.items()\<close> (\<open>base.py\<close>, lines 100 to 102):
  every key but \<open>ticket_url\<close> is set on the existing object.
\<close>

definition set_fields :: "dict \<Rightarrow> Event \<Rightarrow> Event" where
  "set_fields event_data existing_event =
     fold (\<lambda>(key, value) e. if key \<noteq> ''ticket_url'' then setattr e key value else e)
       event_data existing_event"

text \<open>
  \<open>save_event\<close> (\<open>base.py\<close>, lines 85 to 115). \<open>now\<close> is the clock reading that becomes
  \<open>updated_at\<close>: the \<open>datetime.utcnow()\<close> of line 103 on an update, the column default on an
  insert; \<open>now_created\<close> is the reading of the \<open>created_at\<close> default on an insert. The result
  is the returned object or the exception raised, and the session afterwards. The log line
  after the commit reads \<open>event_data['title']\<close> and raises \<open>KeyError\<close> when the key is
  missing, the commit already done.
\<close>

definition save_event :: "int \<Rightarrow> int \<Rightarrow> Session \<Rightarrow> dict \<Rightarrow> (error + Event) \<times> Session" where
  "save_event now_created now db event_data =
     (case map_of event_data ''ticket_url'' of
        None \<Rightarrow> (Inl KeyError, db)
      | Some ticket_url \<Rightarrow>
          (case check_duplicate db ticket_url of
             Inl err \<Rightarrow> (Inl err, db)
           | Inr (Some existing_event) \<Rightarrow>
               (let e1 = set_fields event_data existing_event;
                    e2 = setattr e1 ''updated_at'' (VTime now)
                in case commit (map (\<lambda>r. if getattr r ''id'' = getattr existing_event ''id''
                                           then persisted e2 else r) (table db)) db of
                     (Inl err, db') \<Rightarrow> (Inl err, db')
                   | (Inr _, db') \<Rightarrow>
                       (case map_of event_data ''title'' of
                          None \<Rightarrow> (Inl KeyError, db')
                        | Some _ \<Rightarrow> (Inr e2, db')))
           | Inr None \<Rightarrow>
               (case Event_init event_data of
                  Inl err \<Rightarrow> (Inl err, db)
                | Inr new_event \<Rightarrow>
                    (let row = inserted now_created now (table db) new_event
                     in case commit (table db @ [row]) db of
                          (Inl err, db') \<Rightarrow> (Inl err, db')
                        | (Inr _, db') \<Rightarrow>
                            (case map_of event_data ''title'' of
                               None \<Rightarrow> (Inl KeyError, db')
                             | Some _ \<Rightarrow> (Inr (refreshed row new_event), db'))))))"

text \<open>
  The filter of \<open>mark_expired_events\<close>: \<open>Event.source == self.source_name\<close>,
  \<open>Event.date_time < cutoff_date\<close>, \<open>Event.expires_at.is_(None)\<close>.
\<close>

definition sweep_filter :: "string \<Rightarrow> int \<Rightarrow> Event \<Rightarrow> bool" where
  "sweep_filter src cutoff_date e \<longleftrightarrow>
     getattr e ''source'' = VStr src \<and>
     (case getattr e ''date_time'' of VTime t \<Rightarrow> t < cutoff_date | _ \<Rightarrow> False) \<and>
     getattr e ''expires_at'' = VNone"

text \<open>
  \<open>mark_expired_events\<close> (\<open>base.py\<close>, lines 117 to 134) at clock reading \<open>now\<close>. In a session
  that is not active the query raises. Otherwise the bulk UPDATE sets \<open>expires_at\<close>;
  \<open>updated_at\<close> is not in its SET clause, so its \<open>onupdate=datetime.utcnow\<close> (\<open>models.py\<close>)
  fires once for the statement, at reading \<open>now_upd\<close>. The statement runs in the database, so
  the commit that follows a positive count has nothing to flush. The result is the number of
  rows matched, or the exception, and the session afterwards.
\<close>

definition mark_expired_events ::
  "BaseScraper \<Rightarrow> int \<Rightarrow> int \<Rightarrow> Session \<Rightarrow> (error + nat) \<times> Session" where
  "mark_expired_events self now now_upd db =
     (if \<not> is_active db then (Inl PendingRollbackError, db)
      else
        (let cutoff_date = now - timedelta_days 1;
             expired_count = length (filter (sweep_filter (source_name self) cutoff_date) (table db))
         in (Inr expired_count,
             db\<lparr>table :=
                  map (\<lambda>e. if sweep_filter (source_name self) cutoff_date e
                            then setattr (setattr e ''expires_at'' (VTime now))
                                   ''updated_at'' (VTime now_upd)
                            else e) (table db)\<rparr>)))"

section \<open>RobotsPolicy\<close>

text \<open>
  \<open>RobotFileParser()\<close>: a parser that has read nothing. No entry is parsed, so its rules
  would grant every agent access, and \<open>last_checked\<close> is \<open>0\<close>.
\<close>

definition RobotFileParser_init :: RobotFileParser where
  "RobotFileParser_init =
     \<lparr>disallow_all = False, allow_all = False, last_checked = 0,
      allowance = (\<lambda>useragent url. Inr True)\<rparr>"

text \<open>
  \<open>RobotFileParser.can_fetch\<close>: the flags first; then, until \<open>robots.txt\<close> has been read,
  no url is allowable (\<open>if not self.last_checked: return False\<close>); then the parsed rules.
\<close>

definition RobotFileParser_can_fetch :: "RobotFileParser \<Rightarrow> string \<Rightarrow> string \<Rightarrow> error + bool" where
  "RobotFileParser_can_fetch p useragent url =
     (if disallow_all p then Inr False
      else if allow_all p then Inr True
      else if last_checked p = 0 then Inr False
      else allowance p useragent url)"

text \<open>
  \<open>_check_robots_txt\<close> (\<open>base.py\<close>, lines 37 to 48). \<open>read_result\<close> is what the \<open>try\<close>
  block does: \<open>Inr p\<close> when \<open>set_url\<close> and \<open>read\<close> return, leaving the parser \<open>p\<close>, and
  \<open>Inl e\<close> when one of them raises. The handler stores a fresh \<open>RobotFileParser()\<close>.
\<close>

definition check_robots_txt :: "error + RobotFileParser \<Rightarrow> BaseScraper \<Rightarrow> BaseScraper" where
  "check_robots_txt read_result self =
     (case read_result of
        Inr p \<Rightarrow> self\<lparr>robot_parser := Some p\<rparr>
      | Inl e \<Rightarrow> self\<lparr>robot_parser := Some RobotFileParser_init\<rparr>)"

text \<open>\<open>can_fetch\<close> (\<open>base.py\<close>, lines 50 to 67).\<close>

definition can_fetch :: "BaseScraper \<Rightarrow> string \<Rightarrow> bool" where
  "can_fetch self url =
     (case robot_parser self of
        None \<Rightarrow> True
      | Some p \<Rightarrow>
          (case RobotFileParser_can_fetch p (user_agent self) url of
             Inr allowed \<Rightarrow> allowed
           | Inl e \<Rightarrow> True))"

text \<open>The settings of \<open>config.py\<close> that the scrapers read.\<close>

record Settings =
  scraper_delay_seconds :: nat
  scraper_timeout_seconds :: nat
  settings_city :: string

definition default_settings :: Settings where
  "default_settings =
     \<lparr>scraper_delay_seconds = 3, scraper_timeout_seconds = 30, settings_city = ''sydney''\<rparr>"

text \<open>\<open>BaseScraper.__init__\<close> (\<open>base.py\<close>, lines 19 to 35), and the two subclasses' constructors.\<close>

definition BaseScraper_init ::
  "Settings \<Rightarrow> error + RobotFileParser \<Rightarrow> string \<Rightarrow> string \<Rightarrow> BaseScraper" where
  "BaseScraper_init settings read_result name url =
     check_robots_txt read_result
       \<lparr>source_name = name, base_url = url,
        delay = scraper_delay_seconds settings, timeout = scraper_timeout_seconds settings,
        user_agent = ''SydneyEventsBot/1.0 (+https://github.com/sydney-events-scraper)'',
        robot_parser = None, city = settings_city settings\<rparr>"

definition EventbriteScraper_init :: "Settings \<Rightarrow> error + RobotFileParser \<Rightarrow> BaseScraper" where
  "EventbriteScraper_init settings read_result =
     BaseScraper_init settings read_result ''eventbrite'' ''https://www.eventbrite.com.au''"

definition TimeOutScraper_init :: "Settings \<Rightarrow> error + RobotFileParser \<Rightarrow> BaseScraper" where
  "TimeOutScraper_init settings read_result =
     BaseScraper_init settings read_result ''timeout'' ''https://www.timeout.com''"

section \<open>Strings\<close>

definition startswith :: "string \<Rightarrow> string \<Rightarrow> bool" where
  "startswith s p \<longleftrightarrow> take (length p) s = p"

text \<open>\<open>str.capitalize\<close> on ASCII letters: the first character upper case, the rest lower case.\<close>

definition upper_char :: "char \<Rightarrow> char" where
  "upper_char c =
     (case map_of (zip ''abcdefghijklmnopqrstuvwxyz'' ''ABCDEFGHIJKLMNOPQRSTUVWXYZ'') c of
        Some u \<Rightarrow> u | None \<Rightarrow> c)"

definition lower_char :: "char \<Rightarrow> char" where
  "lower_char c =
     (case map_of (zip ''ABCDEFGHIJKLMNOPQRSTUVWXYZ'' ''abcdefghijklmnopqrstuvwxyz'') c of
        Some l \<Rightarrow> l | None \<Rightarrow> c)"

definition capitalize :: "string \<Rightarrow> string" where
  "capitalize s = (case s of [] \<Rightarrow> [] | c # cs \<Rightarrow> upper_char c # map lower_char cs)"

text \<open>\<open>str(n)\<close> for a page number.\<close>

fun str_nat :: "nat \<Rightarrow> string" where
  "str_nat n =
     (if n < 10 then [''0123456789'' ! n]
      else str_nat (n div 10) @ [''0123456789'' ! (n mod 10)])"

section \<open>Extractor\<close>

text \<open>
  The markup library is outside the repository, so a card is what its \<open>find\<close> answers: for
  each selector the first matching element, or \<open>None\<close>. An element is its stripped text
  (\<open>get_text(strip=True)\<close>) and its attributes. The selectors are those the scrapers use:
  a tag name, a tag name with a class that contains a word (case-insensitively), and a tag
  name with an \<open>href\<close> attribute present.
\<close>

record Tag =
  get_text :: string
  attrs :: "(string \<times> string) list"

datatype selector = ByName string | ByNameClass string string | ByNameHref string

type_synonym card = "selector \<Rightarrow> Tag option"

definition Tag_get :: "Tag \<Rightarrow> string \<Rightarrow> string option" where
  "Tag_get t k = map_of (attrs t) k"

text \<open>Python's \<open>or\<close> on elements (an element is always truthy) and on strings.\<close>

definition or_else :: "Tag option \<Rightarrow> Tag option \<Rightarrow> Tag option" where
  "or_else a b = (case a of Some t \<Rightarrow> Some t | None \<Rightarrow> b)"

definition str_or :: "string option \<Rightarrow> string option \<Rightarrow> string option" where
  "str_or a b = (case a of Some s \<Rightarrow> (if s \<noteq> [] then Some s else b) | None \<Rightarrow> b)"

definition truthy :: "val option \<Rightarrow> bool" where
  "truthy v =
     (case v of
        None \<Rightarrow> False
      | Some VNone \<Rightarrow> False
      | Some (VStr s) \<Rightarrow> s \<noteq> []
      | Some (VInt n) \<Rightarrow> n \<noteq> 0
      | Some (VTime t) \<Rightarrow> True)"

text \<open>
  \<open>datetime.strptime\<close> is a parameter: \<open>strptime s fmt\<close> is \<open>Some t\<close> when the text parses
  by the format and \<open>None\<close> when it raises. \<open>first_format\<close> is the loop over the formats of
  \<open>_parse_date\<close>, which returns at the first format that parses.
\<close>

type_synonym strptime = "string \<Rightarrow> string \<Rightarrow> int option"

fun first_format :: "strptime \<Rightarrow> string \<Rightarrow> string list \<Rightarrow> int option" where
  "first_format strptime s [] = None"
| "first_format strptime s (fmt # fmts) =
     (case strptime s fmt of Some t \<Rightarrow> Some t | None \<Rightarrow> first_format strptime s fmts)"

definition Eventbrite_formats :: "string list" where
  "Eventbrite_formats = [''%Y-%m-%d'', ''%d %b %Y'', ''%d/%m/%Y'', ''%B %d, %Y'']"

definition TimeOut_formats :: "string list" where
  "TimeOut_formats = [''%Y-%m-%d'', ''%d %b %Y'', ''%d/%m/%Y'', ''%B %d, %Y'', ''%a %d %b %Y'']"

text \<open>\<open>EventbriteScraper._parse_date\<close> (\<open>eventbrite.py\<close>, lines 148 to 163).\<close>

definition Eventbrite_parse_date :: "strptime \<Rightarrow> int \<Rightarrow> string \<Rightarrow> int" where
  "Eventbrite_parse_date strptime now date_str =
     (case first_format strptime (take 20 date_str) Eventbrite_formats of
        Some t \<Rightarrow> t
      | None \<Rightarrow> now + timedelta_days 7)"

text \<open>\<open>TimeOutScraper._parse_date\<close> (\<open>timeout.py\<close>, lines 144 to 157).\<close>

definition TimeOut_parse_date :: "strptime \<Rightarrow> int \<Rightarrow> string \<Rightarrow> int" where
  "TimeOut_parse_date strptime now date_str =
     (case first_format strptime (take 30 date_str) TimeOut_formats of
        Some t \<Rightarrow> t
      | None \<Rightarrow> now + timedelta_days 7)"

text \<open>The ticket url of a card's first anchor (both scrapers, the same three branches).\<close>

definition resolve_href :: "BaseScraper \<Rightarrow> string \<Rightarrow> string" where
  "resolve_href self href =
     (if startswith href ''/'' then base_url self @ href
      else if startswith href ''http'' then href
      else base_url self @ ''/'' @ href)"

text \<open>The image url branches (both scrapers), on the chosen source attribute.\<close>

definition resolve_img :: "BaseScraper \<Rightarrow> string option \<Rightarrow> val" where
  "resolve_img self img_src =
     (case img_src of
        None \<Rightarrow> VNone
      | Some src \<Rightarrow>
          (if src = [] then VNone
           else if startswith src ''/'' then VStr (base_url self @ src)
           else if startswith src ''http'' then VStr src
           else VNone))"

text \<open>
  \<open>EventbriteScraper._extract_event_data\<close> (\<open>eventbrite.py\<close>, lines 84 to 146) at clock
  reading \<open>now\<close>. \<open>None\<close> is the \<open>return None\<close> of a card without an anchor; no operation of
  the model raises, so the handler's \<open>return None\<close> has no branch of its own.
\<close>

definition Eventbrite_extract_event_data ::
  "BaseScraper \<Rightarrow> strptime \<Rightarrow> int \<Rightarrow> card \<Rightarrow> dict option" where
  "Eventbrite_extract_event_data self strptime now card' =
     (let title_elem = or_else (or_else (card' (ByName ''h2'')) (card' (ByName ''h3'')))
                         (card' (ByNameClass ''a'' ''title''));
          title_elem = (case title_elem of None \<Rightarrow> card' (ByNameHref ''a'') | Some t \<Rightarrow> Some t);
          title = (case title_elem of Some t \<Rightarrow> get_text t | None \<Rightarrow> ''Untitled Event'')
      in case card' (ByNameHref ''a'') of
           None \<Rightarrow> None
         | Some link_elem \<Rightarrow>
             (let href = (case Tag_get link_elem ''href'' of Some h \<Rightarrow> h | None \<Rightarrow> []);
                  ticket_url = resolve_href self href;
                  date_time =
                    (case or_else (card' (ByName ''time'')) (card' (ByNameClass ''div'' ''date'')) of
                       Some date_elem \<Rightarrow> Eventbrite_parse_date strptime now (get_text date_elem)
                     | None \<Rightarrow> now);
                  location =
                    (case or_else (card' (ByNameClass ''div'' ''location''))
                            (card' (ByNameClass ''span'' ''location'')) of
                       Some location_elem \<Rightarrow> get_text location_elem
                     | None \<Rightarrow> capitalize (city self) @ '', Australia'');
                  description =
                    (case or_else (card' (ByName ''p'')) (card' (ByNameClass ''div'' ''description'')) of
                       Some desc_elem \<Rightarrow> VStr (take 500 (get_text desc_elem))
                     | None \<Rightarrow> VNone);
                  image_url =
                    (case card' (ByName ''img'') of
                       Some img_elem \<Rightarrow>
                         resolve_img self (str_or (Tag_get img_elem ''src'') (Tag_get img_elem ''data-src''))
                     | None \<Rightarrow> VNone)
              in Some [(''title'', VStr title), (''ticket_url'', VStr ticket_url),
                       (''date_time'', VTime date_time), (''location'', VStr location),
                       (''description'', description), (''image_url'', image_url)]))"

text \<open>\<open>TimeOutScraper._extract_event_data\<close> (\<open>timeout.py\<close>, lines 79 to 142).\<close>

definition TimeOut_extract_event_data ::
  "BaseScraper \<Rightarrow> strptime \<Rightarrow> int \<Rightarrow> card \<Rightarrow> dict option" where
  "TimeOut_extract_event_data self strptime now card' =
     (let title_elem = or_else (or_else (card' (ByName ''h2'')) (card' (ByName ''h3'')))
                         (card' (ByNameClass ''a'' ''title''));
          title_elem = (case title_elem of None \<Rightarrow> card' (ByNameHref ''a'') | Some t \<Rightarrow> Some t);
          title = (case title_elem of Some t \<Rightarrow> get_text t | None \<Rightarrow> ''Untitled Event'')
      in case card' (ByNameHref ''a'') of
           None \<Rightarrow> None
         | Some link_elem \<Rightarrow>
             (let href = (case Tag_get link_elem ''href'' of Some h \<Rightarrow> h | None \<Rightarrow> []);
                  ticket_url = resolve_href self href;
                  date_time =
                    (case or_else (card' (ByName ''time'')) (card' (ByNameClass ''span'' ''date'')) of
                       Some date_elem \<Rightarrow> TimeOut_parse_date strptime now (get_text date_elem)
                     | None \<Rightarrow> now);
                  location =
                    (case or_else (or_else (card' (ByNameClass ''div'' ''location''))
                                     (card' (ByNameClass ''span'' ''venue'')))
                            (card' (ByName ''address'')) of
                       Some location_elem \<Rightarrow> get_text location_elem
                     | None \<Rightarrow> capitalize (city self) @ '', Australia'');
                  description =
                    (case or_else (or_else (card' (ByName ''p''))
                                     (card' (ByNameClass ''div'' ''description'')))
                            (card' (ByNameClass ''div'' ''summary'')) of
                       Some desc_elem \<Rightarrow> VStr (take 500 (get_text desc_elem))
                     | None \<Rightarrow> VNone);
                  image_url =
                    (case card' (ByName ''img'') of
                       Some img_elem \<Rightarrow>
                         resolve_img self
                           (str_or (str_or (Tag_get img_elem ''src'') (Tag_get img_elem ''data-src''))
                              (Tag_get img_elem ''data-lazy-src''))
                     | None \<Rightarrow> VNone)
              in Some [(''title'', VStr title), (''ticket_url'', VStr ticket_url),
                       (''date_time'', VTime date_time), (''location'', VStr location),
                       (''description'', description), (''image_url'', image_url)]))"

section \<open>PageFetcher and the page loop\<close>

text \<open>
  A rendered page is what \<open>find_all\<close> and \<open>select\<close> answer: the list of cards of each query
  the scrapers make. The browser is outside the repository: \<open>launch_ok\<close> and \<open>close_ok\<close>
  say whether \<open>_init_browser\<close> and \<open>_close_browser\<close> return, and \<open>goto url\<close> is the page of
  a navigation, \<open>None\<close> when navigating, reading or parsing raises.
\<close>

datatype soup_query =
  FindAll string
  | FindAllClass string string
  | FindAllAttr string string string
  | SelectClass "string list"

type_synonym soup = "soup_query \<Rightarrow> card list"

record Playwright =
  launch_ok :: bool
  close_ok :: bool
  goto :: "string \<Rightarrow> soup option"

definition list_or :: "'a list \<Rightarrow> 'a list \<Rightarrow> 'a list" where
  "list_or a b = (if a \<noteq> [] then a else b)"

text \<open>
  The loop over the cards of a page, shared by both \<open>_scrape_page\<close>: a candidate is kept when
  it is not \<open>None\<close> and its \<open>ticket_url\<close> is truthy. \<open>clock i\<close> is the clock reading while
  the card at position \<open>i\<close> is extracted.
\<close>

definition extract_cards :: "(int \<Rightarrow> card \<Rightarrow> dict option) \<Rightarrow> (nat \<Rightarrow> int) \<Rightarrow> card list \<Rightarrow> dict list" where
  "extract_cards extract clock cards =
     concat (map (\<lambda>(i, card').
                    case extract (clock i) card' of
                      Some event_data \<Rightarrow>
                        (if truthy (map_of event_data ''ticket_url'') then [event_data] else [])
                    | None \<Rightarrow> [])
               (enumerate 0 cards))"

text \<open>
  \<open>EventbriteScraper._scrape_page\<close> (\<open>eventbrite.py\<close>, lines 45 to 82). The result is the
  candidates of the page and the urls navigated to.
\<close>

definition Eventbrite_scrape_page ::
  "BaseScraper \<Rightarrow> strptime \<Rightarrow> Playwright \<Rightarrow> (nat \<Rightarrow> int) \<Rightarrow> string \<Rightarrow> dict list \<times> string list" where
  "Eventbrite_scrape_page self strptime page clock url =
     (if \<not> can_fetch self url then ([], [])
      else case goto page url of
             None \<Rightarrow> ([], [url])
           | Some soup \<Rightarrow>
               (let event_cards =
                      list_or (list_or (soup (FindAllClass ''div'' ''event-card''))
                                 (soup (FindAll ''article'')))
                        (soup (FindAllAttr ''div'' ''data-testid'' ''event''));
                    event_cards = (if event_cards = [] then take 20 (soup (SelectClass [''event'']))
                                   else event_cards)
                in (extract_cards (Eventbrite_extract_event_data self strptime) clock
                      (take 50 event_cards), [url])))"

text \<open>\<open>TimeOutScraper._scrape_page\<close> (\<open>timeout.py\<close>, lines 45 to 77).\<close>

definition TimeOut_scrape_page ::
  "BaseScraper \<Rightarrow> strptime \<Rightarrow> Playwright \<Rightarrow> (nat \<Rightarrow> int) \<Rightarrow> string \<Rightarrow> dict list \<times> string list" where
  "TimeOut_scrape_page self strptime page clock url =
     (if \<not> can_fetch self url then ([], [])
      else case goto page url of
             None \<Rightarrow> ([], [url])
           | Some soup \<Rightarrow>
               (let event_cards =
                      list_or (list_or (soup (FindAll ''article''))
                                 (soup (FindAllClass ''div'' ''card'')))
                        (take 30 (soup (SelectClass [''event'', ''listing''])))
                in (extract_cards (TimeOut_extract_event_data self strptime) clock
                      (take 50 event_cards), [url])))"

text \<open>
  The \<open>for page_num in range(...)\<close> loop of \<open>_scrape_async\<close>, for the page function of either
  scraper: it extends \<open>all_events\<close> and breaks after a page without candidates.
  \<open>clock page_num\<close> gives the clock readings during that page.
\<close>

definition page_url :: "string \<Rightarrow> nat \<Rightarrow> string" where
  "page_url search_url page_num =
     (if page_num = 1 then search_url else search_url @ ''?page='' @ str_nat page_num)"

fun scrape_pages ::
  "((nat \<Rightarrow> int) \<Rightarrow> string \<Rightarrow> dict list \<times> string list) \<Rightarrow> (nat \<Rightarrow> nat \<Rightarrow> int) \<Rightarrow> string \<Rightarrow>
   nat list \<Rightarrow> dict list \<times> string list" where
  "scrape_pages scrape_page clock search_url [] = ([], [])"
| "scrape_pages scrape_page clock search_url (page_num # page_nums) =
     (let (events, fetched) = scrape_page (clock page_num) (page_url search_url page_num)
      in if length events = 0 then (events, fetched)
         else (let (more, fetched') = scrape_pages scrape_page clock search_url page_nums
               in (events @ more, fetched @ fetched')))"

text \<open>
  \<open>EventbriteScraper._scrape_async\<close> (\<open>eventbrite.py\<close>, lines 165 to 195) and \<open>scrape\<close>. A
  browser that does not start is caught and leaves no events; \<open>_close_browser\<close> runs in the
  \<open>finally\<close> block, so an exception of it leaves the function. The second component is the
  list of urls navigated to.
\<close>

definition Eventbrite_scrape_async ::
  "BaseScraper \<Rightarrow> strptime \<Rightarrow> Playwright \<Rightarrow> (nat \<Rightarrow> nat \<Rightarrow> int) \<Rightarrow> (error + dict list) \<times> string list" where
  "Eventbrite_scrape_async self strptime page clock =
     (let search_url = base_url self @ ''/d/australia--sydney/events/'';
          (all_events, fetched) =
             (if launch_ok page
              then scrape_pages (Eventbrite_scrape_page self strptime page) clock search_url [1..<4]
              else ([], []))
      in if close_ok page then (Inr all_events, fetched) else (Inl Exception, fetched))"


text \<open>\<open>TimeOutScraper._scrape_async\<close> (\<open>timeout.py\<close>, lines 159 to 189) and \<open>scrape\<close>.\<close>

definition TimeOut_scrape_async ::
  "BaseScraper \<Rightarrow> strptime \<Rightarrow> Playwright \<Rightarrow> (nat \<Rightarrow> nat \<Rightarrow> int) \<Rightarrow> (error + dict list) \<times> string list" where
  "TimeOut_scrape_async self strptime page clock =
     (let search_url = base_url self @ ''/'' @ city self @ ''/events'';
          (all_events, fetched) =
             (if launch_ok page
              then scrape_pages (TimeOut_scrape_page self strptime page) clock search_url [1..<3]
              else ([], []))
      in if close_ok page then (Inr all_events, fetched) else (Inl Exception, fetched))"


section \<open>ScraperOrchestrator: \<open>run\<close>\<close>

text \<open>
  The shape of an event that \<open>run\<close> hands to \<open>save_event\<close>: a dictionary over the six keys
  the extractors set and the \<open>source\<close> key that \<open>run\<close> stamps, with a value other than
  \<open>None\<close> for \<open>title\<close>, \<open>ticket_url\<close>, \<open>date_time\<close>, \<open>location\<close> and \<open>source\<close>, the value of
  \<open>date_time\<close> being a \<open>datetime\<close>.
\<close>

definition candidate_fields :: "string list" where
  "candidate_fields =
     [''title'', ''ticket_url'', ''date_time'', ''location'', ''description'', ''image_url'',
      ''source'']"

definition is_candidate :: "dict \<Rightarrow> bool" where
  "is_candidate d \<longleftrightarrow>
     is_dict d \<and>
     list_all (\<lambda>(k, v). k \<in> set candidate_fields) d \<and>
     list_all (\<lambda>c. getattr d c \<noteq> VNone)
       [''title'', ''ticket_url'', ''date_time'', ''location'', ''source''] \<and>
     (case getattr d ''date_time'' of VTime t \<Rightarrow> True | _ \<Rightarrow> False)"

text \<open>
  The loop of \<open>run\<close> over the scraped events (\<open>base.py\<close>, lines 163 to 173): the source is
  stamped, the event saved, and an exception of \<open>save_event\<close> skips the count.
  \<open>created_clock i\<close> and \<open>clock i\<close> are the clock readings of the save at position \<open>i\<close>.
\<close>

fun save_events ::
  "BaseScraper \<Rightarrow> (nat \<Rightarrow> int) \<Rightarrow> (nat \<Rightarrow> int) \<Rightarrow> nat \<Rightarrow> dict list \<Rightarrow> nat \<Rightarrow> Session \<Rightarrow>
   nat \<times> Session" where
  "save_events self created_clock clock i [] saved_count db = (saved_count, db)"
| "save_events self created_clock clock i (event_data # events) saved_count db =
     (case save_event (created_clock i) (clock i) db
             (AList.update ''source'' (VStr (source_name self)) event_data) of
        (Inr e, db') \<Rightarrow> save_events self created_clock clock (Suc i) events (saved_count + 1) db'
      | (Inl err, db') \<Rightarrow> save_events self created_clock clock (Suc i) events saved_count db')"

text \<open>
  \<open>run\<close> (\<open>base.py\<close>, lines 146 to 180). \<open>scrape\<close> is what the abstract method returns when
  it is called: the events, or the exception it raises. \<open>now\<close> and \<open>now_upd\<close> are the clock
  readings of the sweep. The outer handler turns an exception of the sweep or of \<open>scrape\<close>
  into \<open>return 0\<close>; after an exception of the sweep \<open>scrape\<close> is not called. The result is
  the value returned, or an exception that leaves \<open>run\<close>, and the session afterwards.
\<close>

definition run ::
  "BaseScraper \<Rightarrow> int \<Rightarrow> int \<Rightarrow> (nat \<Rightarrow> int) \<Rightarrow> (nat \<Rightarrow> int) \<Rightarrow> error + dict list \<Rightarrow> Session \<Rightarrow>
   (error + nat) \<times> Session" where
  "run self now now_upd created_clock clock scrape db =
     (case mark_expired_events self now now_upd db of
        (Inl err, db1) \<Rightarrow> (Inr 0, db1)
      | (Inr expired_count, db1) \<Rightarrow>
          (case scrape of
             Inl err \<Rightarrow> (Inr 0, db1)
           | Inr events \<Rightarrow>
               (let (saved_count, db2) = save_events self created_clock clock 0 events 0 db1
                in (Inr saved_count, db2))))"

section \<open>Scheduler\<close>


type_synonym scraper =
  "BaseScraper \<times> int \<times> int \<times> (nat \<Rightarrow> int) \<times> (nat \<Rightarrow> int) \<times> (error + dict list)"




section \<open>Example inputs\<close>

text \<open>
  A parser whose \<open>read\<close> succeeded on a \<open>robots.txt\<close> that allows everything, a
  \<open>strptime\<close> that knows the one date text of the examples, three cards and a table.
\<close>

definition robots_read_ok :: RobotFileParser where
  "robots_read_ok =
     \<lparr>disallow_all = False, allow_all = False, last_checked = 1700000000,
      allowance = (\<lambda>useragent url. Inr True)\<rparr>"

definition ex_strptime :: strptime where
  "ex_strptime s fmt =
     (if s = ''2025-03-01'' \<and> fmt = ''%Y-%m-%d'' then Some 63876384000000000 else None)"

definition card_tba :: card where
  "card_tba sel =
     (if sel = ByNameHref ''a''
      then Some \<lparr>get_text = ''Gig'', attrs = [(''href'', ''/e/gig-1'')]\<rparr>
      else if sel = ByName ''time'' then Some \<lparr>get_text = ''TBA'', attrs = []\<rparr>
      else None)"

definition card_undated :: card where
  "card_undated sel =
     (if sel = ByNameHref ''a''
      then Some \<lparr>get_text = ''Open Mic'', attrs = [(''href'', ''e/open-mic'')]\<rparr>
      else None)"

definition ex_row :: "int \<Rightarrow> string \<Rightarrow> string \<Rightarrow> string \<Rightarrow> int \<Rightarrow> val \<Rightarrow> Event" where
  "ex_row i u ttl src t x =
     [(''id'', VInt i), (''title'', VStr ttl), (''date_time'', VTime t),
      (''location'', VStr ''Sydney, Australia''), (''description'', VNone),
      (''ticket_url'', VStr u), (''image_url'', VNone), (''source'', VStr src),
      (''created_at'', VTime 0), (''updated_at'', VTime 0), (''expires_at'', x),
      (''click_count'', VInt 0)]"

definition ex_table :: "Event list" where
  "ex_table =
     [ex_row 1 ''https://x/e1'' ''A'' ''timeout'' (timedelta_days 8) VNone,
      ex_row 2 ''https://x/e2'' ''B'' ''timeout'' (timedelta_days 9 + 1) VNone,
      ex_row 3 ''https://x/e3'' ''C'' ''timeout'' (timedelta_days 2) (VTime 77),
      ex_row 4 ''https://x/e4'' ''D'' ''eventbrite'' (timedelta_days 2) VNone]"

text \<open>
  A browser whose first listing page has a card with an anchor, whose second has no card and
  whose third would have one again; a browser every page of which has such a card; and a
  browser that does not start.
\<close>

definition card_no_anchor :: card where
  "card_no_anchor sel =
     (if sel = ByName ''h2'' then Some \<lparr>get_text = ''Sold out'', attrs = []\<rparr> else None)"

definition ex_soup :: soup where
  "ex_soup q = (if q = FindAll ''article'' then [card_no_anchor, card_tba] else [])"


definition ex_browser :: "string \<Rightarrow> Playwright" where
  "ex_browser search_url =
     \<lparr>launch_ok = True, close_ok = True,
      goto = (\<lambda>url. if url = search_url @ ''?page=2'' then Some (\<lambda>q. []) else Some ex_soup)\<rparr>"

definition ex_full_browser :: Playwright where
  "ex_full_browser = \<lparr>launch_ok = True, close_ok = True, goto = (\<lambda>url. Some ex_soup)\<rparr>"

definition ex_no_browser :: Playwright where
  "ex_no_browser = \<lparr>launch_ok = False, close_ok = True, goto = (\<lambda>url. None)\<rparr>"

definition ex_candidate :: "string \<Rightarrow> dict" where
  "ex_candidate ttl =
     [(''title'', VStr ttl), (''ticket_url'', VStr ''https://x/e9''), (''date_time'', VTime 5),
      (''location'', VStr ''Sydney, Australia''), (''description'', VNone),
      (''image_url'', VNone), (''source'', VStr ''eventbrite'')]"

definition ex_rescraped :: dict where
  "ex_rescraped =
     [(''title'', VStr ''C again''), (''ticket_url'', VStr ''https://x/e3''), (''date_time'', VTime 5),
      (''location'', VStr ''Sydney, Australia''), (''description'', VNone),
      (''image_url'', VNone), (''source'', VStr ''timeout'')]"

definition ex_foreign :: dict where
  "ex_foreign =
     [(''title'', VStr ''Gig''), (''ticket_url'', VStr ''https://www.eventbrite.com.au/e/gig-1''),
      (''date_time'', VTime 5), (''location'', VStr ''Sydney, Australia''),
      (''description'', VNone), (''image_url'', VNone), (''source'', VStr ''meetup'')]"





section \<open>Attributes and example values\<close>

lemma getattr_setattr:
  "getattr (setattr e k v) k' = (if k' = k then v else getattr e k')"
  by (simp add: getattr_def setattr_def update_conv')

lemma sweep_filter_iff:
  "sweep_filter src c e \<longleftrightarrow>
     getattr e ''source'' = VStr src \<and> (\<exists>t. getattr e ''date_time'' = VTime t \<and> t < c) \<and>
     getattr e ''expires_at'' = VNone"
  by (auto simp: sweep_filter_def split: val.splits)

lemma base_url_Eventbrite [simp]:
  "base_url (EventbriteScraper_init settings read_result) = ''https://www.eventbrite.com.au''"
  by (simp add: EventbriteScraper_init_def BaseScraper_init_def check_robots_txt_def
      split: sum.splits)

lemma base_url_TimeOut [simp]:
  "base_url (TimeOutScraper_init settings read_result) = ''https://www.timeout.com''"
  by (simp add: TimeOutScraper_init_def BaseScraper_init_def check_robots_txt_def
      split: sum.splits)

lemma startswith_nonempty: "startswith s ''http'' \<Longrightarrow> s \<noteq> []"
  by (auto simp: startswith_def)

lemmas ex_defs = ex_strptime_def card_tba_def card_undated_def card_no_anchor_def robots_read_ok_def
  default_settings_def ex_table_def ex_row_def

lemmas scraper_init_defs = EventbriteScraper_init_def TimeOutScraper_init_def
  BaseScraper_init_def check_robots_txt_def

lemmas extract_defs = Eventbrite_extract_event_data_def TimeOut_extract_event_data_def
  or_else_def str_or_def resolve_href_def resolve_img_def startswith_def Tag_get_def
  Eventbrite_parse_date_def TimeOut_parse_date_def Eventbrite_formats_def TimeOut_formats_def
  capitalize_def upper_char_def lower_char_def timedelta_days_def

lemma extract_card_tba:
  "Eventbrite_extract_event_data (EventbriteScraper_init default_settings (Inr robots_read_ok))
       ex_strptime 1000 card_tba =
     Some [(''title'', VStr ''Gig''), (''ticket_url'', VStr ''https://www.eventbrite.com.au/e/gig-1''),
           (''date_time'', VTime 604800001000), (''location'', VStr ''Sydney, Australia''),
           (''description'', VNone), (''image_url'', VNone)]"
  by (simp add: extract_defs scraper_init_defs ex_defs)

lemma extract_card_undated:
  "TimeOut_extract_event_data (TimeOutScraper_init default_settings (Inr robots_read_ok))
       ex_strptime 1000 card_undated =
     Some [(''title'', VStr ''Open Mic''), (''ticket_url'', VStr ''https://www.timeout.com/e/open-mic''),
           (''date_time'', VTime 1000), (''location'', VStr ''Sydney, Australia''),
           (''description'', VNone), (''image_url'', VNone)]"
  by (simp add: extract_defs scraper_init_defs ex_defs)


section \<open>The expiration sweep\<close>

lemma mark_expired_events_active:
  "is_active db \<Longrightarrow>
   mark_expired_events self now now_upd db =
     (Inr (length (filter (sweep_filter (source_name self) (now - timedelta_days 1)) (table db))),
      db\<lparr>table :=
           map (\<lambda>e. if sweep_filter (source_name self) (now - timedelta_days 1) e
                     then setattr (setattr e ''expires_at'' (VTime now)) ''updated_at'' (VTime now_upd)
                     else e) (table db)\<rparr>)"
  by (simp add: mark_expired_events_def Let_def)

lemma mark_expired_events_inactive:
  "\<not> is_active db \<Longrightarrow> mark_expired_events self now now_upd db = (Inl PendingRollbackError, db)"
  by (simp add: mark_expired_events_def)

lemma mark_expired_events_is_active:
  "is_active (snd (mark_expired_events self now now_upd db)) = is_active db"
  by (cases "is_active db") (simp_all add: mark_expired_events_active mark_expired_events_inactive)

text \<open>
  Claim C2. In an active session a sweep for a source at time \<open>now\<close> keeps the number of
  rows, matches exactly the rows of that source whose \<open>date_time\<close> is earlier than \<open>now\<close>
  minus one day and whose \<open>expires_at\<close> is null, and sets \<open>expires_at = now\<close> on them, keeping
  every other column but \<open>updated_at\<close>. Every other row, so every row of the last 24 hours
  and every row already expired, is left as it is. A row that has an \<open>expires_at\<close> after the
  sweep is left as it is by a second sweep at any instant. In a session that is not active
  the sweep raises and leaves every row as it is.
\<close>

theorem mark_expired_events_sweep:
  "(is_active db \<longrightarrow>
     (let db' = snd (mark_expired_events self now now_upd db);
          hit = (\<lambda>e. getattr e ''source'' = VStr (source_name self) \<and>
                    (\<exists>t. getattr e ''date_time'' = VTime t \<and> t < now - timedelta_days 1) \<and>
                    getattr e ''expires_at'' = VNone)
      in length (table db') = length (table db) \<and>
         fst (mark_expired_events self now now_upd db) = Inr (length (filter hit (table db))) \<and>
         (\<forall>i<length (table db).
            (hit (table db ! i) \<longrightarrow>
               getattr (table db' ! i) ''expires_at'' = VTime now \<and>
               (\<forall>k. k \<noteq> ''expires_at'' \<and> k \<noteq> ''updated_at'' \<longrightarrow>
                    getattr (table db' ! i) k = getattr (table db ! i) k)) \<and>
            (\<not> hit (table db ! i) \<longrightarrow> table db' ! i = table db ! i) \<and>
            (\<forall>now2 now_upd2.
               getattr (table db' ! i) ''expires_at'' \<noteq> VNone \<longrightarrow>
               table (snd (mark_expired_events self now2 now_upd2 db')) ! i = table db' ! i)))) \<and>
   (\<not> is_active db \<longrightarrow>
      mark_expired_events self now now_upd db = (Inl PendingRollbackError, db))"
proof (intro conjI impI)
  assume a: "is_active db"
  let ?db' = "snd (mark_expired_events self now now_upd db)"
  have a': "is_active ?db'" using a by (simp add: mark_expired_events_is_active)
  show "let db' = snd (mark_expired_events self now now_upd db);
          hit = (\<lambda>e. getattr e ''source'' = VStr (source_name self) \<and>
                    (\<exists>t. getattr e ''date_time'' = VTime t \<and> t < now - timedelta_days 1) \<and>
                    getattr e ''expires_at'' = VNone)
      in length (table db') = length (table db) \<and>
         fst (mark_expired_events self now now_upd db) = Inr (length (filter hit (table db))) \<and>
         (\<forall>i<length (table db).
            (hit (table db ! i) \<longrightarrow>
               getattr (table db' ! i) ''expires_at'' = VTime now \<and>
               (\<forall>k. k \<noteq> ''expires_at'' \<and> k \<noteq> ''updated_at'' \<longrightarrow>
                    getattr (table db' ! i) k = getattr (table db ! i) k)) \<and>
            (\<not> hit (table db ! i) \<longrightarrow> table db' ! i = table db ! i) \<and>
            (\<forall>now2 now_upd2.
               getattr (table db' ! i) ''expires_at'' \<noteq> VNone \<longrightarrow>
               table (snd (mark_expired_events self now2 now_upd2 db')) ! i = table db' ! i))"
    unfolding Let_def mark_expired_events_active[OF a'] unfolding mark_expired_events_active[OF a]
      snd_conv fst_conv sweep_filter_iff
    by (auto simp: getattr_setattr)
next
  assume "\<not> is_active db"
  then show "mark_expired_events self now now_upd db = (Inl PendingRollbackError, db)"
    by (rule mark_expired_events_inactive)
qed

theorem mark_expired_events_sweep_witness:
  "(let self = TimeOutScraper_init default_settings (Inr robots_read_ok);
        T = timedelta_days 10;
        db' = snd (mark_expired_events self T (T + 5) (SessionLocal ex_table))
    in is_active (SessionLocal ex_table) \<and>
       fst (mark_expired_events self T (T + 5) (SessionLocal ex_table)) = Inr 1 \<and>
       getattr (ex_table ! 0) ''date_time'' = VTime (T - timedelta_days 2) \<and>
       getattr (ex_table ! 0) ''expires_at'' = VNone \<and>
       getattr (table db' ! 0) ''expires_at'' = VTime T \<and>
       table db' ! 1 = ex_table ! 1 \<and> table db' ! 2 = ex_table ! 2 \<and> table db' ! 3 = ex_table ! 3 \<and>
       table (snd (mark_expired_events self (T + 3600000000) (T + 3600000005) db')) ! 0 = table db' ! 0)"
proof -
  let ?S = "TimeOutScraper_init default_settings (Inr robots_read_ok)"
  let ?T = "timedelta_days 10"
  let ?db' = "snd (mark_expired_events ?S ?T (?T + 5) (SessionLocal ex_table))"
  let ?hit = "\<lambda>e. getattr e ''source'' = VStr (source_name ?S) \<and>
                    (\<exists>t. getattr e ''date_time'' = VTime t \<and> t < ?T - timedelta_days 1) \<and>
                    getattr e ''expires_at'' = VNone"
  have act: "is_active (SessionLocal ex_table)" by (simp add: SessionLocal_def)
  have tbl: "table (SessionLocal ex_table) = ex_table" by (simp add: SessionLocal_def)
  have hits: "filter ?hit ex_table = [ex_table ! 0]"
    by (simp add: getattr_def ex_defs timedelta_days_def scraper_init_defs)
  have rows: "getattr (ex_table ! 0) ''date_time'' = VTime (?T - timedelta_days 2)"
    "getattr (ex_table ! 0) ''expires_at'' = VNone"
    by (simp_all add: getattr_def ex_defs timedelta_days_def)
  from mark_expired_events_sweep[of "SessionLocal ex_table" ?S ?T "?T + 5"] act
  have "fst (mark_expired_events ?S ?T (?T + 5) (SessionLocal ex_table)) =
          Inr (length (filter ?hit (table (SessionLocal ex_table))))"
    unfolding Let_def by blast
  then have count: "fst (mark_expired_events ?S ?T (?T + 5) (SessionLocal ex_table)) = Inr 1"
    unfolding tbl hits by simp
  define db' where "db' = snd (mark_expired_events ?S ?T (?T + 5) (SessionLocal ex_table))"
  have after: "table db' =
      [setattr (setattr (ex_table ! 0) ''expires_at'' (VTime ?T)) ''updated_at'' (VTime (?T + 5)),
       ex_table ! 1, ex_table ! 2, ex_table ! 3]"
    unfolding db'_def mark_expired_events_active[OF act] snd_conv tbl
    by (simp add: sweep_filter_def getattr_def ex_defs timedelta_days_def scraper_init_defs)
  have act': "is_active db'"
    unfolding db'_def using act by (simp add: mark_expired_events_is_active)
  have again: "table (snd (mark_expired_events ?S (?T + 3600000000) (?T + 3600000005) db')) ! 0 =
      table db' ! 0"
    unfolding mark_expired_events_active[OF act'] snd_conv
    by (simp add: after sweep_filter_def getattr_def setattr_def
          ex_defs timedelta_days_def scraper_init_defs)
  have e0: "getattr (table db' ! 0) ''expires_at'' = VTime ?T"
    by (simp add: after getattr_setattr)
  have rest: "table db' ! 1 = ex_table ! 1" "table db' ! 2 = ex_table ! 2" "table db' ! 3 = ex_table ! 3"
    by (simp_all add: after)
  from act count rows e0 rest again show ?thesis
    unfolding Let_def db'_def by (intro conjI)
qed

section \<open>The robots policy after a failed read\<close>

text \<open>
  Claim C3. When reading \<open>robots.txt\<close> raises at construction, the handler stores a parser
  that has read nothing, and \<open>can_fetch\<close> of the scraper is false for every url: the fresh
  parser answers \<open>False\<close> before any rule is consulted and raises nothing, so the fail-open
  branch of \<open>can_fetch\<close> is not reached.
\<close>

theorem can_fetch_after_failed_read:
  "can_fetch (check_robots_txt (Inl e) self) url = False"
  by (simp add: can_fetch_def check_robots_txt_def RobotFileParser_can_fetch_def
      RobotFileParser_init_def)

section \<open>The date of an eventbrite candidate\<close>




section \<open>The ticket url of a candidate\<close>

text \<open>
  Claim C10. Every candidate that the eventbrite or the timeout extractor returns comes from
  a card with an anchor and has a \<open>ticket_url\<close> that is a non-empty string beginning with
  \<open>http\<close>: the base url followed by the href when the href begins with \<open>/\<close>, the href
  itself when it begins with \<open>http\<close>, and the base url, \<open>/\<close> and the href otherwise.
\<close>

theorem extracted_ticket_url_absolute:
  "(Eventbrite_extract_event_data (EventbriteScraper_init settings read_result) strptime now c = Some d \<longrightarrow>
      (\<exists>link_elem u.
         c (ByNameHref ''a'') = Some link_elem \<and>
         map_of d ''ticket_url'' = Some (VStr u) \<and> u \<noteq> [] \<and> startswith u ''http'' \<and>
         (let href = (case Tag_get link_elem ''href'' of Some h \<Rightarrow> h | None \<Rightarrow> [])
          in u = (if startswith href ''/'' then ''https://www.eventbrite.com.au'' @ href
                  else if startswith href ''http'' then href
                  else ''https://www.eventbrite.com.au'' @ ''/'' @ href)))) \<and>
   (TimeOut_extract_event_data (TimeOutScraper_init settings read_result) strptime now c = Some d \<longrightarrow>
      (\<exists>link_elem u.
         c (ByNameHref ''a'') = Some link_elem \<and>
         map_of d ''ticket_url'' = Some (VStr u) \<and> u \<noteq> [] \<and> startswith u ''http'' \<and>
         (let href = (case Tag_get link_elem ''href'' of Some h \<Rightarrow> h | None \<Rightarrow> [])
          in u = (if startswith href ''/'' then ''https://www.timeout.com'' @ href
                  else if startswith href ''http'' then href
                  else ''https://www.timeout.com'' @ ''/'' @ href))))"
proof (intro conjI impI)
  assume h: "Eventbrite_extract_event_data (EventbriteScraper_init settings read_result) strptime now c = Some d"
  then obtain link_elem where l: "c (ByNameHref ''a'') = Some link_elem"
    by (auto simp: Eventbrite_extract_event_data_def Let_def split: option.splits)
  define href where "href = (case Tag_get link_elem ''href'' of Some h \<Rightarrow> h | None \<Rightarrow> [])"
  define u where "u = resolve_href (EventbriteScraper_init settings read_result) href"
  from h l have d: "map_of d ''ticket_url'' = Some (VStr u)"
    by (auto simp: Eventbrite_extract_event_data_def Let_def u_def href_def)
  have sw: "startswith u ''http''"
    by (auto simp: u_def resolve_href_def startswith_def)
  show "\<exists>link_elem u.
         c (ByNameHref ''a'') = Some link_elem \<and>
         map_of d ''ticket_url'' = Some (VStr u) \<and> u \<noteq> [] \<and> startswith u ''http'' \<and>
         (let href = (case Tag_get link_elem ''href'' of Some h \<Rightarrow> h | None \<Rightarrow> [])
          in u = (if startswith href ''/'' then ''https://www.eventbrite.com.au'' @ href
                  else if startswith href ''http'' then href
                  else ''https://www.eventbrite.com.au'' @ ''/'' @ href))"
    using l d sw startswith_nonempty[OF sw]
    by (intro exI[of _ link_elem] exI[of _ u]) (simp add: Let_def u_def resolve_href_def href_def)
next
  assume h: "TimeOut_extract_event_data (TimeOutScraper_init settings read_result) strptime now c = Some d"
  then obtain link_elem where l: "c (ByNameHref ''a'') = Some link_elem"
    by (auto simp: TimeOut_extract_event_data_def Let_def split: option.splits)
  define href where "href = (case Tag_get link_elem ''href'' of Some h \<Rightarrow> h | None \<Rightarrow> [])"
  define u where "u = resolve_href (TimeOutScraper_init settings read_result) href"
  from h l have d: "map_of d ''ticket_url'' = Some (VStr u)"
    by (auto simp: TimeOut_extract_event_data_def Let_def u_def href_def)
  have sw: "startswith u ''http''"
    by (auto simp: u_def resolve_href_def startswith_def)
  show "\<exists>link_elem u.
         c (ByNameHref ''a'') = Some link_elem \<and>
         map_of d ''ticket_url'' = Some (VStr u) \<and> u \<noteq> [] \<and> startswith u ''http'' \<and>
         (let href = (case Tag_get link_elem ''href'' of Some h \<Rightarrow> h | None \<Rightarrow> [])
          in u = (if startswith href ''/'' then ''https://www.timeout.com'' @ href
                  else if startswith href ''http'' then href
                  else ''https://www.timeout.com'' @ ''/'' @ href))"
    using l d sw startswith_nonempty[OF sw]
    by (intro exI[of _ link_elem] exI[of _ u]) (simp add: Let_def u_def resolve_href_def href_def)
qed

theorem extracted_ticket_url_absolute_witness:
  "startswith ''https://www.eventbrite.com.au/e/gig-1'' ''http'' \<and>
   startswith ''https://www.timeout.com/e/open-mic'' ''http''"
proof -
  from extracted_ticket_url_absolute[THEN conjunct1, THEN mp, OF extract_card_tba]
  have "startswith ''https://www.eventbrite.com.au/e/gig-1'' ''http''" by auto
  moreover
  from extracted_ticket_url_absolute[THEN conjunct2, THEN mp, OF extract_card_undated]
  have "startswith ''https://www.timeout.com/e/open-mic'' ''http''" by auto
  ultimately show ?thesis by blast
qed

section \<open>The page loop\<close>

lemma scrape_pages_fetched:
  assumes sp: "\<And>clk url. snd (sp clk url) = [url] \<or> (snd (sp clk url) = [] \<and> fst (sp clk url) = [])"
  shows "\<exists>k\<le>length ns.
           snd (scrape_pages sp clock su ns) = take k (map (page_url su) ns) \<and>
           (\<forall>j<k. fst (sp (clock (ns ! j)) (page_url su (ns ! j))) = [] \<longrightarrow> k = Suc j)"
proof (induction ns)
  case Nil
  show ?case by simp
next
  case (Cons n ns)
  obtain ev f where e: "sp (clock n) (page_url su n) = (ev, f)" by (cases "sp (clock n) (page_url su n)")
  from sp[of "clock n" "page_url su n"] e
  have f: "f = [page_url su n] \<or> (f = [] \<and> ev = [])" by simp
  show ?case
  proof (cases "ev = []")
    case True
    from f show ?thesis
    proof
      assume "f = [page_url su n]"
      with e True show ?thesis by (intro exI[of _ 1]) simp
    next
      assume "f = [] \<and> ev = []"
      with e show ?thesis by (intro exI[of _ 0]) simp
    qed
  next
    case False
    with f have f1: "f = [page_url su n]" by simp
    from Cons.IH obtain k where k: "k \<le> length ns"
      "snd (scrape_pages sp clock su ns) = take k (map (page_url su) ns)"
      "\<forall>j<k. fst (sp (clock (ns ! j)) (page_url su (ns ! j))) = [] \<longrightarrow> k = Suc j"
      by blast
    have "snd (scrape_pages sp clock su (n # ns)) = take (Suc k) (map (page_url su) (n # ns))"
      using e False f1 k(2) by (simp add: split_beta)
    moreover have "\<forall>j<Suc k. fst (sp (clock ((n # ns) ! j)) (page_url su ((n # ns) ! j))) = [] \<longrightarrow> Suc k = Suc j"
    proof (intro allI impI)
      fix j assume j: "j < Suc k" and z: "fst (sp (clock ((n # ns) ! j)) (page_url su ((n # ns) ! j))) = []"
      show "Suc k = Suc j"
      proof (cases j)
        case 0
        with z e False show ?thesis by simp
      next
        case (Suc j')
        with j z k(3) show ?thesis by auto
      qed
    qed
    ultimately show ?thesis using k(1) by (intro exI[of _ "Suc k"]) simp
  qed
qed

lemma Eventbrite_scrape_page_fetched:
  "snd (Eventbrite_scrape_page self strptime page clk url) = [url] \<or>
   (snd (Eventbrite_scrape_page self strptime page clk url) = [] \<and>
    fst (Eventbrite_scrape_page self strptime page clk url) = [])"
  by (simp add: Eventbrite_scrape_page_def Let_def split: option.splits)

lemma TimeOut_scrape_page_fetched:
  "snd (TimeOut_scrape_page self strptime page clk url) = [url] \<or>
   (snd (TimeOut_scrape_page self strptime page clk url) = [] \<and>
    fst (TimeOut_scrape_page self strptime page clk url) = [])"
  by (simp add: TimeOut_scrape_page_def Let_def split: option.splits)

lemma scrape_pages_fetched_upt:
  assumes sp: "\<And>clk url. snd (sp clk url) = [url] \<or> (snd (sp clk url) = [] \<and> fst (sp clk url) = [])"
  shows "\<exists>k\<le>n.
           snd (scrape_pages sp clock su [1..<Suc n]) = take k (map (page_url su) [1..<Suc n]) \<and>
           (\<forall>j<k. fst (sp (clock (Suc j)) (page_url su (Suc j))) = [] \<longrightarrow> k = Suc j)"
proof -
  define ns where "ns = [1..<Suc n]"
  have len: "length ns = n" unfolding ns_def by (simp only: length_upt diff_Suc_1)
  have nth: "ns ! j = Suc j" if "j < n" for j
    unfolding ns_def using that nth_upt[of 1 j "Suc n"] by linarith
  from scrape_pages_fetched[of sp ns clock su, OF sp]
  obtain k where k0: "k \<le> length ns" and
    k1: "snd (scrape_pages sp clock su ns) = take k (map (page_url su) ns)" and
    k2: "\<forall>j<k. fst (sp (clock (ns ! j)) (page_url su (ns ! j))) = [] \<longrightarrow> k = Suc j"
    by blast
  from k0 len have kn: "k \<le> n" by (simp only:)
  have "\<forall>j<k. fst (sp (clock (Suc j)) (page_url su (Suc j))) = [] \<longrightarrow> k = Suc j"
  proof (intro allI impI)
    fix j assume j: "j < k" and z: "fst (sp (clock (Suc j)) (page_url su (Suc j))) = []"
    from j kn have "j < n" by linarith
    from nth[OF this] z have "fst (sp (clock (ns ! j)) (page_url su (ns ! j))) = []" by (simp only:)
    with k2 j show "k = Suc j" by blast
  qed
  with kn k1 show ?thesis unfolding ns_def by blast
qed

lemma urls_3: "map (page_url su) [1..<Suc 3] = [su, su @ ''?page=2'', su @ ''?page=3'']"
  by (simp add: upt_rec page_url_def)

lemma urls_2: "map (page_url su) [1..<Suc 2] = [su, su @ ''?page=2'']"
  by (simp add: upt_rec page_url_def)

lemma nth_urls_3: "j < 3 \<Longrightarrow> [su, su @ ''?page=2'', su @ ''?page=3''] ! j = page_url su (Suc j)"
proof -
  assume "j < 3"
  then consider "j = 0" | "j = 1" | "j = 2" by linarith
  then show ?thesis by cases (simp_all add: page_url_def)
qed

lemma nth_urls_2: "j < 2 \<Longrightarrow> [su, su @ ''?page=2''] ! j = page_url su (Suc j)"
proof -
  assume "j < 2"
  then consider "j = 0" | "j = 1" by linarith
  then show ?thesis by cases (simp_all add: page_url_def)
qed

lemma Eventbrite_async_fetched:
  "snd (Eventbrite_scrape_async self strptime page clock) =
     (if launch_ok page
      then snd (scrape_pages (Eventbrite_scrape_page self strptime page) clock
                  (base_url self @ ''/d/australia--sydney/events/'') [1..<Suc 3])
      else [])"
  by (simp del: scrape_pages.simps upt_Suc add: Eventbrite_scrape_async_def Let_def split_beta eval_nat_numeral)

lemma TimeOut_async_fetched:
  "snd (TimeOut_scrape_async self strptime page clock) =
     (if launch_ok page
      then snd (scrape_pages (TimeOut_scrape_page self strptime page) clock
                  (base_url self @ ''/'' @ city self @ ''/events'') [1..<Suc 2])
      else [])"
  by (simp del: scrape_pages.simps upt_Suc add: TimeOut_scrape_async_def Let_def split_beta eval_nat_numeral)

lemma Eventbrite_fetched_prefix:
  "\<exists>k\<le>3. snd (Eventbrite_scrape_async self strptime page clock)
              = take k [su, su @ ''?page=2'', su @ ''?page=3''] \<and>
         (\<forall>j<k. fst (Eventbrite_scrape_page self strptime page (clock (Suc j))
                      ([su, su @ ''?page=2'', su @ ''?page=3''] ! j)) = [] \<longrightarrow> k = Suc j)"
  if su: "su = base_url self @ ''/d/australia--sydney/events/''"
proof (cases "launch_ok page")
  case False
  then have "snd (Eventbrite_scrape_async self strptime page clock) = []"
    by (simp only: Eventbrite_async_fetched if_False)
  then show ?thesis by (intro exI[of _ 0]) simp
next
  case True
  from scrape_pages_fetched_upt[of "Eventbrite_scrape_page self strptime page" 3 clock su,
         OF Eventbrite_scrape_page_fetched]
  obtain k where k: "k \<le> 3"
    "snd (scrape_pages (Eventbrite_scrape_page self strptime page) clock su [1..<Suc 3]) =
       take k (map (page_url su) [1..<Suc 3])"
    "\<forall>j<k. fst (Eventbrite_scrape_page self strptime page (clock (Suc j)) (page_url su (Suc j))) = []
        \<longrightarrow> k = Suc j"
    by blast
  from True k(2) have f: "snd (Eventbrite_scrape_async self strptime page clock) =
       take k [su, su @ ''?page=2'', su @ ''?page=3'']"
    by (simp only: Eventbrite_async_fetched if_True su[symmetric] urls_3)
  have "\<forall>j<k. fst (Eventbrite_scrape_page self strptime page (clock (Suc j))
                      ([su, su @ ''?page=2'', su @ ''?page=3''] ! j)) = [] \<longrightarrow> k = Suc j"
  proof (intro allI impI)
    fix j assume j: "j < k" and z: "fst (Eventbrite_scrape_page self strptime page (clock (Suc j))
                      ([su, su @ ''?page=2'', su @ ''?page=3''] ! j)) = []"
    from j k(1) have "j < 3" by simp
    from z nth_urls_3[OF this, of su] k(3) j show "k = Suc j" by simp
  qed
  with k(1) f show ?thesis by blast
qed

lemma TimeOut_fetched_prefix:
  "\<exists>k\<le>2. snd (TimeOut_scrape_async self strptime page clock)
              = take k [su, su @ ''?page=2''] \<and>
         (\<forall>j<k. fst (TimeOut_scrape_page self strptime page (clock (Suc j))
                      ([su, su @ ''?page=2''] ! j)) = [] \<longrightarrow> k = Suc j)"
  if su: "su = base_url self @ ''/'' @ city self @ ''/events''"
proof (cases "launch_ok page")
  case False
  then have "snd (TimeOut_scrape_async self strptime page clock) = []"
    by (simp only: TimeOut_async_fetched if_False)
  then show ?thesis by (intro exI[of _ 0]) simp
next
  case True
  from scrape_pages_fetched_upt[of "TimeOut_scrape_page self strptime page" 2 clock su,
         OF TimeOut_scrape_page_fetched]
  obtain k where k: "k \<le> 2"
    "snd (scrape_pages (TimeOut_scrape_page self strptime page) clock su [1..<Suc 2]) =
       take k (map (page_url su) [1..<Suc 2])"
    "\<forall>j<k. fst (TimeOut_scrape_page self strptime page (clock (Suc j)) (page_url su (Suc j))) = []
        \<longrightarrow> k = Suc j"
    by blast
  from True k(2) have f: "snd (TimeOut_scrape_async self strptime page clock) =
       take k [su, su @ ''?page=2'']"
    by (simp only: TimeOut_async_fetched if_True su[symmetric] urls_2)
  have "\<forall>j<k. fst (TimeOut_scrape_page self strptime page (clock (Suc j))
                      ([su, su @ ''?page=2''] ! j)) = [] \<longrightarrow> k = Suc j"
  proof (intro allI impI)
    fix j assume j: "j < k" and z: "fst (TimeOut_scrape_page self strptime page (clock (Suc j))
                      ([su, su @ ''?page=2''] ! j)) = []"
    from j k(1) have "j < 2" by simp
    from z nth_urls_2[OF this, of su] k(3) j show "k = Suc j" by simp
  qed
  with k(1) f show ?thesis by blast
qed

text \<open>
  What decides the length of a crawl: a page that robots.txt disallows is not fetched and
  yields nothing; a page that is allowed is fetched, whatever it yields.
\<close>

lemma scrape_pages_stop:
  assumes a1: "\<And>clk url. allowed url \<Longrightarrow> snd (sp clk url) = [url]"
  shows "j < length ns \<Longrightarrow>
     \<forall>i\<le>j. allowed (page_url su (ns ! i)) \<Longrightarrow>
     \<forall>i<j. fst (sp (clock (ns ! i)) (page_url su (ns ! i))) \<noteq> [] \<Longrightarrow>
     fst (sp (clock (ns ! j)) (page_url su (ns ! j))) = [] \<Longrightarrow>
     snd (scrape_pages sp clock su ns) = take (Suc j) (map (page_url su) ns)"
proof (induction ns arbitrary: j)
  case Nil
  then show ?case by simp
next
  case (Cons n ns)
  obtain ev f where e: "sp (clock n) (page_url su n) = (ev, f)" by (cases "sp (clock n) (page_url su n)")
  from Cons.prems(2) have "allowed (page_url su n)" by force
  from a1[OF this, of "clock n"] e have f: "f = [page_url su n]" by simp
  show ?case
  proof (cases j)
    case 0
    with Cons.prems(4) e have "ev = []" by simp
    with e f 0 show ?thesis by simp
  next
    case (Suc j')
    from Cons.prems(3) Suc have "fst (sp (clock ((n # ns) ! 0)) (page_url su ((n # ns) ! 0))) \<noteq> []"
      by blast
    with e have ne: "ev \<noteq> []" by simp
    from Cons.prems(1) Suc have 1: "j' < length ns" by simp
    have 2: "\<forall>i\<le>j'. allowed (page_url su (ns ! i))"
    proof (intro allI impI)
      fix i assume "i \<le> j'"
      with Suc have "Suc i \<le> j" by simp
      with Cons.prems(2) have "allowed (page_url su ((n # ns) ! Suc i))" by blast
      then show "allowed (page_url su (ns ! i))" by simp
    qed
    have 3: "\<forall>i<j'. fst (sp (clock (ns ! i)) (page_url su (ns ! i))) \<noteq> []"
    proof (intro allI impI)
      fix i assume "i < j'"
      with Suc have "Suc i < j" by simp
      with Cons.prems(3) have "fst (sp (clock ((n # ns) ! Suc i)) (page_url su ((n # ns) ! Suc i))) \<noteq> []"
        by blast
      then show "fst (sp (clock (ns ! i)) (page_url su (ns ! i))) \<noteq> []" by simp
    qed
    from Cons.prems(4) Suc have 4: "fst (sp (clock (ns ! j')) (page_url su (ns ! j'))) = []" by simp
    from Cons.IH[OF 1 2 3 4] e f ne Suc show ?thesis by (simp add: split_beta)
  qed
qed

lemma scrape_pages_disallowed:
  assumes a1: "\<And>clk url. allowed url \<Longrightarrow> snd (sp clk url) = [url]"
    and a2: "\<And>clk url. \<not> allowed url \<Longrightarrow> sp clk url = ([], [])"
  shows "j < length ns \<Longrightarrow>
     \<forall>i<j. allowed (page_url su (ns ! i)) \<and> fst (sp (clock (ns ! i)) (page_url su (ns ! i))) \<noteq> [] \<Longrightarrow>
     \<not> allowed (page_url su (ns ! j)) \<Longrightarrow>
     snd (scrape_pages sp clock su ns) = take j (map (page_url su) ns)"
proof (induction ns arbitrary: j)
  case Nil
  then show ?case by simp
next
  case (Cons n ns)
  show ?case
  proof (cases j)
    case 0
    with Cons.prems(3) have "\<not> allowed (page_url su n)" by simp
    from a2[OF this, of "clock n"] 0 show ?thesis by simp
  next
    case (Suc j')
    obtain ev f where e: "sp (clock n) (page_url su n) = (ev, f)" by (cases "sp (clock n) (page_url su n)")
    from Cons.prems(2) Suc have
      "allowed (page_url su ((n # ns) ! 0)) \<and>
       fst (sp (clock ((n # ns) ! 0)) (page_url su ((n # ns) ! 0))) \<noteq> []" by blast
    with e have al: "allowed (page_url su n)" and ne: "ev \<noteq> []" by simp_all
    from a1[OF al, of "clock n"] e have f: "f = [page_url su n]" by simp
    from Cons.prems(1) Suc have 1: "j' < length ns" by simp
    have 2: "\<forall>i<j'. allowed (page_url su (ns ! i)) \<and>
                     fst (sp (clock (ns ! i)) (page_url su (ns ! i))) \<noteq> []"
    proof (intro allI impI)
      fix i assume "i < j'"
      with Suc have "Suc i < j" by simp
      with Cons.prems(2) have "allowed (page_url su ((n # ns) ! Suc i)) \<and>
         fst (sp (clock ((n # ns) ! Suc i)) (page_url su ((n # ns) ! Suc i))) \<noteq> []" by blast
      then show "allowed (page_url su (ns ! i)) \<and>
                 fst (sp (clock (ns ! i)) (page_url su (ns ! i))) \<noteq> []" by simp
    qed
    from Cons.prems(3) Suc have 3: "\<not> allowed (page_url su (ns ! j'))" by simp
    from Cons.IH[OF 1 2 3] e f ne Suc show ?thesis by (simp add: split_beta)
  qed
qed

lemma scrape_pages_all:
  assumes a1: "\<And>clk url. allowed url \<Longrightarrow> snd (sp clk url) = [url]"
  shows "\<forall>i<length ns. allowed (page_url su (ns ! i)) \<Longrightarrow>
     \<forall>i. Suc i < length ns \<longrightarrow> fst (sp (clock (ns ! i)) (page_url su (ns ! i))) \<noteq> [] \<Longrightarrow>
     snd (scrape_pages sp clock su ns) = map (page_url su) ns"
proof (induction ns)
  case Nil
  then show ?case by simp
next
  case (Cons n ns)
  obtain ev f where e: "sp (clock n) (page_url su n) = (ev, f)" by (cases "sp (clock n) (page_url su n)")
  from Cons.prems(1) have "allowed (page_url su n)" by force
  from a1[OF this, of "clock n"] e have f: "f = [page_url su n]" by simp
  show ?case
  proof (cases ns)
    case Nil
    with e f show ?thesis by (simp add: split_beta)
  next
    case (Cons m ms)
    with Cons.prems(2) have "fst (sp (clock ((n # ns) ! 0)) (page_url su ((n # ns) ! 0))) \<noteq> []"
      by (metis length_Cons zero_less_Suc Suc_less_eq)
    with e have ne: "ev \<noteq> []" by simp
    have 1: "\<forall>i<length ns. allowed (page_url su (ns ! i))"
    proof (intro allI impI)
      fix i assume "i < length ns"
      then have "Suc i < length (n # ns)" by simp
      with Cons.prems(1) have "allowed (page_url su ((n # ns) ! Suc i))" by blast
      then show "allowed (page_url su (ns ! i))" by simp
    qed
    have 2: "\<forall>i. Suc i < length ns \<longrightarrow> fst (sp (clock (ns ! i)) (page_url su (ns ! i))) \<noteq> []"
    proof (intro allI impI)
      fix i assume "Suc i < length ns"
      then have "Suc (Suc i) < length (n # ns)" by simp
      with Cons.prems(2) have
        "fst (sp (clock ((n # ns) ! Suc i)) (page_url su ((n # ns) ! Suc i))) \<noteq> []" by blast
      then show "fst (sp (clock (ns ! i)) (page_url su (ns ! i))) \<noteq> []" by simp
    qed
    from Cons.IH[OF 1 2] e f ne show ?thesis by (simp add: split_beta)
  qed
qed

lemma Eventbrite_scrape_page_allowed:
  "can_fetch self url \<Longrightarrow> snd (Eventbrite_scrape_page self strptime page clk url) = [url]"
  by (simp add: Eventbrite_scrape_page_def Let_def split: option.splits)

lemma Eventbrite_scrape_page_disallowed:
  "\<not> can_fetch self url \<Longrightarrow> Eventbrite_scrape_page self strptime page clk url = ([], [])"
  by (simp add: Eventbrite_scrape_page_def)

lemma TimeOut_scrape_page_allowed:
  "can_fetch self url \<Longrightarrow> snd (TimeOut_scrape_page self strptime page clk url) = [url]"
  by (simp add: TimeOut_scrape_page_def Let_def split: option.splits)

lemma TimeOut_scrape_page_disallowed:
  "\<not> can_fetch self url \<Longrightarrow> TimeOut_scrape_page self strptime page clk url = ([], [])"
  by (simp add: TimeOut_scrape_page_def)

text \<open>The three lemmas on the page numbers \<open>1, \<dots>, n\<close>, with the urls as a list.\<close>

lemma crawl_cases:
  fixes sp :: "(nat \<Rightarrow> int) \<Rightarrow> string \<Rightarrow> dict list \<times> string list"
    and allowed :: "string \<Rightarrow> bool" and clock :: "nat \<Rightarrow> nat \<Rightarrow> int"
    and su :: string and urls :: "string list" and n :: nat
  assumes a1: "\<And>clk url. allowed url \<Longrightarrow> snd (sp clk url) = [url]"
    and a2: "\<And>clk url. \<not> allowed url \<Longrightarrow> sp clk url = ([], [])"
    and urls: "urls = map (page_url su) [1..<Suc n]"
  defines "fetched \<equiv> snd (scrape_pages sp clock su [1..<Suc n])"
  defines "yield \<equiv> \<lambda>j. fst (sp (clock (Suc j)) (urls ! j))"
  shows "\<forall>j<n. (\<forall>i\<le>j. allowed (urls ! i)) \<and> (\<forall>i<j. yield i \<noteq> []) \<and> yield j = [] \<longrightarrow>
           fetched = take (Suc j) urls"
    and "\<forall>j<n. (\<forall>i<j. allowed (urls ! i) \<and> yield i \<noteq> []) \<and> \<not> allowed (urls ! j) \<longrightarrow>
           fetched = take j urls"
    and "(\<forall>i<n. allowed (urls ! i)) \<and> (\<forall>i. Suc i < n \<longrightarrow> yield i \<noteq> []) \<longrightarrow> fetched = urls"
proof -
  define ns where "ns = [1..<Suc n]"
  have len: "length ns = n" unfolding ns_def by (simp only: length_upt diff_Suc_1)
  have nth: "ns ! j = Suc j" if "j < n" for j
    unfolding ns_def using that nth_upt[of 1 j "Suc n"] by linarith
  have u: "urls ! j = page_url su (ns ! j)" if "j < n" for j
    unfolding urls ns_def[symmetric] using that len by simp
  have y: "yield j = fst (sp (clock (ns ! j)) (page_url su (ns ! j)))" if "j < n" for j
    unfolding yield_def using u[OF that] nth[OF that] by simp
  have f: "fetched = snd (scrape_pages sp clock su ns)" unfolding fetched_def ns_def ..
  have m: "map (page_url su) ns = urls" unfolding urls ns_def ..
  show "\<forall>j<n. (\<forall>i\<le>j. allowed (urls ! i)) \<and> (\<forall>i<j. yield i \<noteq> []) \<and> yield j = [] \<longrightarrow>
           fetched = take (Suc j) urls"
  proof (intro allI impI, elim conjE)
    fix j assume j: "j < n" and al: "\<forall>i\<le>j. allowed (urls ! i)"
      and ne: "\<forall>i<j. yield i \<noteq> []" and z: "yield j = []"
    from j len have 1: "j < length ns" by simp
    have 2: "\<forall>i\<le>j. allowed (page_url su (ns ! i))"
    proof (intro allI impI)
      fix i assume i: "i \<le> j"
      with j have "i < n" by simp
      from al i have "allowed (urls ! i)" by blast
      with u[OF \<open>i < n\<close>] show "allowed (page_url su (ns ! i))" by simp
    qed
    have 3: "\<forall>i<j. fst (sp (clock (ns ! i)) (page_url su (ns ! i))) \<noteq> []"
    proof (intro allI impI)
      fix i assume i: "i < j"
      with j have "i < n" by simp
      from ne i have "yield i \<noteq> []" by blast
      with y[OF \<open>i < n\<close>] show "fst (sp (clock (ns ! i)) (page_url su (ns ! i))) \<noteq> []" by simp
    qed
    from y[OF j] z have 4: "fst (sp (clock (ns ! j)) (page_url su (ns ! j))) = []" by simp
    from scrape_pages_stop[of allowed sp j ns su clock, OF a1 1 2 3 4]
    show "fetched = take (Suc j) urls" unfolding f m .
  qed
  show "\<forall>j<n. (\<forall>i<j. allowed (urls ! i) \<and> yield i \<noteq> []) \<and> \<not> allowed (urls ! j) \<longrightarrow>
           fetched = take j urls"
  proof (intro allI impI, elim conjE)
    fix j assume j: "j < n" and al: "\<forall>i<j. allowed (urls ! i) \<and> yield i \<noteq> []"
      and dis: "\<not> allowed (urls ! j)"
    from j len have 1: "j < length ns" by simp
    have 2: "\<forall>i<j. allowed (page_url su (ns ! i)) \<and>
                    fst (sp (clock (ns ! i)) (page_url su (ns ! i))) \<noteq> []"
    proof (intro allI impI)
      fix i assume i: "i < j"
      with j have "i < n" by simp
      from al i have "allowed (urls ! i) \<and> yield i \<noteq> []" by blast
      with u[OF \<open>i < n\<close>] y[OF \<open>i < n\<close>]
      show "allowed (page_url su (ns ! i)) \<and>
            fst (sp (clock (ns ! i)) (page_url su (ns ! i))) \<noteq> []" by simp
    qed
    from u[OF j] dis have 3: "\<not> allowed (page_url su (ns ! j))" by simp
    from scrape_pages_disallowed[of allowed sp j ns su clock, OF a1 a2 1 2 3]
    show "fetched = take j urls" unfolding f m .
  qed
  show "(\<forall>i<n. allowed (urls ! i)) \<and> (\<forall>i. Suc i < n \<longrightarrow> yield i \<noteq> []) \<longrightarrow> fetched = urls"
  proof (intro impI, elim conjE)
    assume al: "\<forall>i<n. allowed (urls ! i)" and ne: "\<forall>i. Suc i < n \<longrightarrow> yield i \<noteq> []"
    have 1: "\<forall>i<length ns. allowed (page_url su (ns ! i))"
    proof (intro allI impI)
      fix i assume "i < length ns"
      with len have i: "i < n" by simp
      from al i have "allowed (urls ! i)" by blast
      with u[OF i] show "allowed (page_url su (ns ! i))" by simp
    qed
    have 2: "\<forall>i. Suc i < length ns \<longrightarrow> fst (sp (clock (ns ! i)) (page_url su (ns ! i))) \<noteq> []"
    proof (intro allI impI)
      fix i assume "Suc i < length ns"
      with len have s: "Suc i < n" by simp
      then have i: "i < n" by simp
      from ne s have "yield i \<noteq> []" by blast
      with y[OF i] show "fst (sp (clock (ns ! i)) (page_url su (ns ! i))) \<noteq> []" by simp
    qed
    from scrape_pages_all[of allowed sp ns su clock, OF a1 1 2]
    show "fetched = urls" unfolding f m .
  qed
qed

text \<open>
  Claim C8. The urls a crawl navigates to are a prefix of the listing pages in increasing
  page-number order, three pages for eventbrite and two for timeout. With a browser that
  started, the crawl stops right after the first page that yields no candidate, fetching that
  page and none after it; a page that robots.txt disallows is not fetched and ends the crawl
  before it; and when every page is allowed and every page but the last yields a candidate,
  all three (two) pages are fetched. A browser that did not start fetches nothing.
\<close>

theorem page_loop_bounded_in_order:
  "(let search_url = base_url self @ ''/d/australia--sydney/events/'';
        urls = [search_url, search_url @ ''?page=2'', search_url @ ''?page=3''];
        fetched = snd (Eventbrite_scrape_async self strptime page clock);
        yield = (\<lambda>j. fst (Eventbrite_scrape_page self strptime page (clock (Suc j)) (urls ! j)))
    in (\<exists>k\<le>3. fetched = take k urls) \<and>
       (\<not> launch_ok page \<longrightarrow> fetched = []) \<and>
       (launch_ok page \<longrightarrow>
          (\<forall>j<3. (\<forall>i\<le>j. can_fetch self (urls ! i)) \<and> (\<forall>i<j. yield i \<noteq> []) \<and> yield j = [] \<longrightarrow>
                   fetched = take (Suc j) urls) \<and>
          (\<forall>j<3. (\<forall>i<j. can_fetch self (urls ! i) \<and> yield i \<noteq> []) \<and> \<not> can_fetch self (urls ! j) \<longrightarrow>
                   fetched = take j urls) \<and>
          ((\<forall>i<3. can_fetch self (urls ! i)) \<and> (\<forall>i. Suc i < 3 \<longrightarrow> yield i \<noteq> []) \<longrightarrow>
             fetched = urls))) \<and>
   (let search_url = base_url self @ ''/'' @ city self @ ''/events'';
        urls = [search_url, search_url @ ''?page=2''];
        fetched = snd (TimeOut_scrape_async self strptime page clock);
        yield = (\<lambda>j. fst (TimeOut_scrape_page self strptime page (clock (Suc j)) (urls ! j)))
    in (\<exists>k\<le>2. fetched = take k urls) \<and>
       (\<not> launch_ok page \<longrightarrow> fetched = []) \<and>
       (launch_ok page \<longrightarrow>
          (\<forall>j<2. (\<forall>i\<le>j. can_fetch self (urls ! i)) \<and> (\<forall>i<j. yield i \<noteq> []) \<and> yield j = [] \<longrightarrow>
                   fetched = take (Suc j) urls) \<and>
          (\<forall>j<2. (\<forall>i<j. can_fetch self (urls ! i) \<and> yield i \<noteq> []) \<and> \<not> can_fetch self (urls ! j) \<longrightarrow>
                   fetched = take j urls) \<and>
          ((\<forall>i<2. can_fetch self (urls ! i)) \<and> (\<forall>i. Suc i < 2 \<longrightarrow> yield i \<noteq> []) \<longrightarrow>
             fetched = urls)))"
proof -
  let ?su = "base_url self @ ''/d/australia--sydney/events/''"
  let ?sv = "base_url self @ ''/'' @ city self @ ''/events''"
  note e = crawl_cases[where allowed="can_fetch self"
      and sp="Eventbrite_scrape_page self strptime page"
      and urls="[?su, ?su @ ''?page=2'', ?su @ ''?page=3'']" and su="?su" and n=3 and clock=clock,
      OF Eventbrite_scrape_page_allowed Eventbrite_scrape_page_disallowed urls_3[symmetric]]
  note t = crawl_cases[where allowed="can_fetch self"
      and sp="TimeOut_scrape_page self strptime page"
      and urls="[?sv, ?sv @ ''?page=2'']" and su="?sv" and n=2 and clock=clock,
      OF TimeOut_scrape_page_allowed TimeOut_scrape_page_disallowed urls_2[symmetric]]
  have ef: "snd (Eventbrite_scrape_async self strptime page clock) =
      snd (scrape_pages (Eventbrite_scrape_page self strptime page) clock ?su [1..<Suc 3])"
    if "launch_ok page" using that by (simp only: Eventbrite_async_fetched if_True)
  have tf: "snd (TimeOut_scrape_async self strptime page clock) =
      snd (scrape_pages (TimeOut_scrape_page self strptime page) clock ?sv [1..<Suc 2])"
    if "launch_ok page" using that by (simp only: TimeOut_async_fetched if_True)
  have en: "snd (Eventbrite_scrape_async self strptime page clock) = []" if "\<not> launch_ok page"
    using that by (simp only: Eventbrite_async_fetched if_False)
  have tn: "snd (TimeOut_scrape_async self strptime page clock) = []" if "\<not> launch_ok page"
    using that by (simp only: TimeOut_async_fetched if_False)
  from Eventbrite_fetched_prefix[OF refl, of self strptime page clock]
  have ep: "\<exists>k\<le>3. snd (Eventbrite_scrape_async self strptime page clock) =
      take k [?su, ?su @ ''?page=2'', ?su @ ''?page=3'']" by blast
  from TimeOut_fetched_prefix[OF refl, of self strptime page clock]
  have tp: "\<exists>k\<le>2. snd (TimeOut_scrape_async self strptime page clock) =
      take k [?sv, ?sv @ ''?page=2'']" by blast
  show ?thesis
    unfolding Let_def
    apply (intro conjI)
         apply (rule ep)
        apply (rule impI, erule en)
       apply (rule impI, simp only: ef, intro conjI)
         apply (rule e(1); assumption)
        apply (rule e(2); assumption)
       apply (rule e(3); assumption)
      apply (rule tp)
     apply (rule impI, erule tn)
    apply (rule impI, simp only: tf, intro conjI)
      apply (rule t(1); assumption)
     apply (rule t(2); assumption)
    apply (rule t(3); assumption)
    done
qed


lemma ex_can_fetch:
  "can_fetch (EventbriteScraper_init default_settings (Inr robots_read_ok)) url"
  "can_fetch (TimeOutScraper_init default_settings (Inr robots_read_ok)) url"
  "\<not> can_fetch (EventbriteScraper_init default_settings (Inl Exception)) url"
  by (simp_all add: can_fetch_def RobotFileParser_can_fetch_def RobotFileParser_init_def
        scraper_init_defs robots_read_ok_def)

lemma ex_scraper_fields:
  "base_url (EventbriteScraper_init default_settings r) = ''https://www.eventbrite.com.au''"
  "city (EventbriteScraper_init default_settings r) = ''sydney''"
  "base_url (TimeOutScraper_init default_settings r) = ''https://www.timeout.com''"
  "city (TimeOutScraper_init default_settings r) = ''sydney''"
  by (simp_all add: scraper_init_defs default_settings_def split: sum.splits)

lemma ex_soup_yield:
  assumes "can_fetch self url" and "goto page url = Some ex_soup"
  shows "fst (Eventbrite_scrape_page self strptime page clk url) \<noteq> []"
    and "fst (TimeOut_scrape_page self strptime page clk url) \<noteq> []"
  using assms
  by (simp_all add: Eventbrite_scrape_page_def TimeOut_scrape_page_def
        extract_cards_def list_or_def truthy_def ex_soup_def enumerate_eq_zip
        extract_defs card_tba_def card_no_anchor_def Let_def)

lemma no_cards_yield:
  assumes "goto page url = Some (\<lambda>q. [])"
  shows "fst (Eventbrite_scrape_page self strptime page clk url) = []"
  using assms
  by (simp add: Eventbrite_scrape_page_def extract_cards_def list_or_def Let_def)

lemma all_below:
  "(\<forall>i<3. P i) \<longleftrightarrow> P 0 \<and> P (Suc 0) \<and> P 2"
  "(\<forall>i<2. P i) \<longleftrightarrow> P 0 \<and> P (Suc 0)"
  "(\<forall>i\<le>Suc 0. P i) \<longleftrightarrow> P 0 \<and> P (Suc 0)"
  "(\<forall>i<Suc 0. P i) \<longleftrightarrow> P 0"
  "(\<forall>i. Suc i < 3 \<longrightarrow> P i) \<longleftrightarrow> P 0 \<and> P (Suc 0)"
  "(\<forall>i. Suc i < 2 \<longrightarrow> P i) \<longleftrightarrow> P 0"
proof -
  have 3: "i < 3 \<longleftrightarrow> i = 0 \<or> i = Suc 0 \<or> i = 2" for i :: nat by auto
  have 2: "i < 2 \<longleftrightarrow> i = 0 \<or> i = Suc 0" for i :: nat by auto
  have 1: "i \<le> Suc 0 \<longleftrightarrow> i = 0 \<or> i = Suc 0" for i :: nat by auto
  have s3: "Suc i < 3 \<longleftrightarrow> i = 0 \<or> i = Suc 0" for i :: nat by auto
  have s2: "Suc i < 2 \<longleftrightarrow> i = 0" for i :: nat by auto
  show "(\<forall>i<3. P i) \<longleftrightarrow> P 0 \<and> P (Suc 0) \<and> P 2" unfolding 3 by blast
  show "(\<forall>i<2. P i) \<longleftrightarrow> P 0 \<and> P (Suc 0)" unfolding 2 by blast
  show "(\<forall>i\<le>Suc 0. P i) \<longleftrightarrow> P 0 \<and> P (Suc 0)" unfolding 1 by blast
  show "(\<forall>i<Suc 0. P i) \<longleftrightarrow> P 0" by simp
  show "(\<forall>i. Suc i < 3 \<longrightarrow> P i) \<longleftrightarrow> P 0 \<and> P (Suc 0)" unfolding s3 by blast
  show "(\<forall>i. Suc i < 2 \<longrightarrow> P i) \<longleftrightarrow> P 0" unfolding s2 by blast
qed

theorem page_loop_bounded_in_order_witness:
  "snd (Eventbrite_scrape_async (EventbriteScraper_init default_settings (Inr robots_read_ok))
          ex_strptime (ex_browser ''https://www.eventbrite.com.au/d/australia--sydney/events/'')
          (\<lambda>p i. 1000)) =
     [''https://www.eventbrite.com.au/d/australia--sydney/events/'',
      ''https://www.eventbrite.com.au/d/australia--sydney/events/?page=2''] \<and>
   snd (Eventbrite_scrape_async (EventbriteScraper_init default_settings (Inr robots_read_ok))
          ex_strptime ex_full_browser (\<lambda>p i. 1000)) =
     [''https://www.eventbrite.com.au/d/australia--sydney/events/'',
      ''https://www.eventbrite.com.au/d/australia--sydney/events/?page=2'',
      ''https://www.eventbrite.com.au/d/australia--sydney/events/?page=3''] \<and>
   snd (TimeOut_scrape_async (TimeOutScraper_init default_settings (Inr robots_read_ok))
          ex_strptime ex_full_browser (\<lambda>p i. 1000)) =
     [''https://www.timeout.com/sydney/events'', ''https://www.timeout.com/sydney/events?page=2''] \<and>
   snd (TimeOut_scrape_async (TimeOutScraper_init default_settings (Inr robots_read_ok))
          ex_strptime ex_no_browser (\<lambda>p i. 1000)) = [] \<and>
   snd (Eventbrite_scrape_async (EventbriteScraper_init default_settings (Inl Exception))
          ex_strptime ex_full_browser (\<lambda>p i. 1000)) = []"
proof -
  define E where "E = EventbriteScraper_init default_settings (Inr robots_read_ok)"
  define T where "T = TimeOutScraper_init default_settings (Inr robots_read_ok)"
  define D where "D = EventbriteScraper_init default_settings (Inl Exception)"
  define B where "B = ex_browser ''https://www.eventbrite.com.au/d/australia--sydney/events/''"
  define F where "F = ex_full_browser"
  note f = ex_scraper_fields[of "Inr robots_read_ok", folded E_def T_def]
    ex_scraper_fields(1)[of "Inl Exception", folded D_def]
  note c = ex_can_fetch[folded E_def T_def D_def]
  have l: "launch_ok B" "launch_ok F" "\<not> launch_ok ex_no_browser"
    by (simp_all add: B_def F_def ex_browser_def ex_full_browser_def ex_no_browser_def)
  have g: "goto B ''https://www.eventbrite.com.au/d/australia--sydney/events/'' = Some ex_soup"
    "goto B ''https://www.eventbrite.com.au/d/australia--sydney/events/?page=2'' = Some (\<lambda>q. [])"
    "\<And>url. goto F url = Some ex_soup"
    by (simp_all add: B_def F_def ex_browser_def ex_full_browser_def)
  note y = ex_soup_yield[OF c(1) g(1)] ex_soup_yield[OF c(1) g(3)] ex_soup_yield[OF c(2) g(3)]
    no_cards_yield[OF g(2)]
  note hE = page_loop_bounded_in_order[of E ex_strptime B "\<lambda>p i. 1000", unfolded Let_def f,
      THEN conjunct1, THEN conjunct2, THEN conjunct2, THEN mp, OF l(1)]
  have 1: "snd (Eventbrite_scrape_async E ex_strptime B (\<lambda>p i. 1000)) =
     take (Suc 1) [''https://www.eventbrite.com.au'' @ ''/d/australia--sydney/events/'',
       (''https://www.eventbrite.com.au'' @ ''/d/australia--sydney/events/'') @ ''?page=2'',
       (''https://www.eventbrite.com.au'' @ ''/d/australia--sydney/events/'') @ ''?page=3'']"
    by (rule hE[THEN conjunct1, rule_format, of 1]) (simp_all add: all_below c y)
  note hF = page_loop_bounded_in_order[of E ex_strptime F "\<lambda>p i. 1000", unfolded Let_def f,
      THEN conjunct1, THEN conjunct2, THEN conjunct2, THEN mp, OF l(2)]
  have 2: "snd (Eventbrite_scrape_async E ex_strptime F (\<lambda>p i. 1000)) =
     [''https://www.eventbrite.com.au'' @ ''/d/australia--sydney/events/'',
       (''https://www.eventbrite.com.au'' @ ''/d/australia--sydney/events/'') @ ''?page=2'',
       (''https://www.eventbrite.com.au'' @ ''/d/australia--sydney/events/'') @ ''?page=3'']"
    by (rule hF[THEN conjunct2, THEN conjunct2, rule_format]) (simp_all add: all_below c y)
  note hT = page_loop_bounded_in_order[of T ex_strptime F "\<lambda>p i. 1000", unfolded Let_def f,
      THEN conjunct2, THEN conjunct2, THEN conjunct2, THEN mp, OF l(2)]
  have 3: "snd (TimeOut_scrape_async T ex_strptime F (\<lambda>p i. 1000)) =
     [''https://www.timeout.com'' @ ''/'' @ ''sydney'' @ ''/events'',
      (''https://www.timeout.com'' @ ''/'' @ ''sydney'' @ ''/events'') @ ''?page=2'']"
    by (rule hT[THEN conjunct2, THEN conjunct2, rule_format]) (simp_all add: all_below c y)
  note hN = page_loop_bounded_in_order[of T ex_strptime ex_no_browser "\<lambda>p i. 1000", unfolded Let_def,
      THEN conjunct2, THEN conjunct2, THEN conjunct1, THEN mp, OF l(3)]
  note hD = page_loop_bounded_in_order[of D ex_strptime F "\<lambda>p i. 1000", unfolded Let_def f,
      THEN conjunct1, THEN conjunct2, THEN conjunct2, THEN mp, OF l(2)]
  have 5: "snd (Eventbrite_scrape_async D ex_strptime F (\<lambda>p i. 1000)) =
     take 0 [''https://www.eventbrite.com.au'' @ ''/d/australia--sydney/events/'',
       (''https://www.eventbrite.com.au'' @ ''/d/australia--sydney/events/'') @ ''?page=2'',
       (''https://www.eventbrite.com.au'' @ ''/d/australia--sydney/events/'') @ ''?page=3'']"
    by (rule hD[THEN conjunct2, THEN conjunct1, rule_format, of 0]) (simp_all add: c)
  from 1 2 3 hN 5 show ?thesis
    unfolding E_def T_def D_def B_def F_def by simp
qed


section \<open>Rows and the shapes of \<open>save_event\<close>\<close>

lemma getattr_persisted:
  "getattr (persisted e) c = (if c \<in> set columns then getattr e c else VNone)"
proof -
  have "map_of (filter (\<lambda>(k, v). k \<in> A) e) c = (if c \<in> A then map_of e c else None)" for A
    by (induction e) auto
  then show ?thesis by (simp add: getattr_def persisted_def)
qed

lemma map_of_tabulate:
  "map_of (map (\<lambda>c. (c, f c)) cs) c = (if c \<in> set cs then Some (f c) else None)"
  by (induction cs) auto

lemma getattr_inserted:
  "getattr (inserted now_created now rows e) c =
     (if c \<in> set columns
      then (case map_of e c of
              Some v \<Rightarrow> (if v = VNone then column_default now_created now rows c else v)
            | None \<Rightarrow> column_default now_created now rows c)
      else VNone)"
  by (simp add: getattr_def inserted_def map_of_tabulate)

lemma persisted_inserted:
  "persisted (inserted now_created now rows e) = inserted now_created now rows e"
  by (simp add: persisted_def inserted_def filter_map o_def)

lemma persisted_refreshed:
  "persisted (refreshed (inserted now_created now rows e) e') = inserted now_created now rows e"
proof -
  have "filter (\<lambda>(k, v). k \<in> set columns) (filter (\<lambda>(k, v). k \<notin> set columns) e') = []"
    by (induction e') auto
  then show ?thesis
    using persisted_inserted[of now_created now rows e] by (simp add: persisted_def refreshed_def)
qed

lemma getattr_refreshed:
  "c \<in> set columns \<Longrightarrow>
     getattr (refreshed (inserted now_created now rows e) e') c =
     getattr (inserted now_created now rows e) c"
  using getattr_persisted[of "refreshed (inserted now_created now rows e) e'" c]
  by (simp add: persisted_refreshed)

lemma getattr_set_fields_ticket_url:
  "getattr (set_fields d e) ''ticket_url'' = getattr e ''ticket_url''"
  unfolding set_fields_def
  by (induction d arbitrary: e) (auto simp: getattr_setattr)

lemma getattr_set_fields_other:
  "c \<notin> fst ` set d \<Longrightarrow> getattr (set_fields d e) c = getattr e c"
  unfolding set_fields_def
  by (induction d arbitrary: e) (auto simp: getattr_setattr)

lemma getattr_set_fields_supplied:
  "distinct (map fst d) \<Longrightarrow> (c, v) \<in> set d \<Longrightarrow> c \<noteq> ''ticket_url'' \<Longrightarrow>
     getattr (set_fields d e) c = v"
proof (induction d arbitrary: e)
  case Nil
  then show ?case by simp
next
  case (Cons p d)
  obtain k w where p: "p = (k, w)" by (cases p)
  show ?case
  proof (cases "(c, v) = p")
    case True
    with p Cons.prems have "c \<notin> fst ` set d" by auto
    from getattr_set_fields_other[OF this] True p Cons.prems(3)
    show ?thesis by (simp add: set_fields_def getattr_setattr)
  next
    case False
    with Cons.prems have "(c, v) \<in> set d" "distinct (map fst d)" by auto
    from Cons.IH[OF this(2) this(1) Cons.prems(3)]
    show ?thesis using p by (simp add: set_fields_def)
  qed
qed

lemma check_duplicate_Some:
  "check_duplicate db u = Inr (Some ex) \<Longrightarrow>
     is_active db \<and> ex \<in> set (table db) \<and> getattr ex ''ticket_url'' = u"
  by (auto simp: check_duplicate_def find_Some_iff split: if_splits)

lemma check_duplicate_None:
  "check_duplicate db u = Inr None \<longleftrightarrow>
     is_active db \<and> (\<forall>r\<in>set (table db). getattr r ''ticket_url'' \<noteq> u)"
  by (auto simp: check_duplicate_def find_None_iff)

lemma check_duplicate_active:
  "is_active db \<Longrightarrow>
     check_duplicate db u = Inr (find (\<lambda>e. getattr e ''ticket_url'' = u) (table db))"
  by (simp add: check_duplicate_def)

lemma check_duplicate_inactive:
  "\<not> is_active db \<Longrightarrow> check_duplicate db u = Inl PendingRollbackError"
  by (simp add: check_duplicate_def)

lemma commit_cases:
  assumes "is_active db"
  obtains (flushed) "table_ok rows" "commit rows db = (Inr (), db\<lparr>table := rows\<rparr>)"
  | (failed) e where "\<not> table_ok rows" "e = StatementError \<or> e = IntegrityError"
      "commit rows db = (Inl e, db\<lparr>is_active := False\<rparr>)"
proof (cases "table_ok rows")
  case True
  then have "list_all row_typed rows" by (simp add: table_ok_def)
  with True assms have "commit rows db = (Inr (), db\<lparr>table := rows\<rparr>)" by (simp add: commit_def)
  with True show ?thesis by (rule flushed)
next
  case False
  show ?thesis
  proof (cases "list_all row_typed rows")
    case True
    with False assms have "commit rows db = (Inl IntegrityError, db\<lparr>is_active := False\<rparr>)"
      by (simp add: commit_def)
    with False show ?thesis by (intro failed[of IntegrityError]) simp_all
  next
    case nt: False
    with assms have "commit rows db = (Inl StatementError, db\<lparr>is_active := False\<rparr>)"
      by (simp add: commit_def)
    with False show ?thesis by (intro failed[of StatementError]) simp_all
  qed
qed

text \<open>
  The shapes of the session after \<open>save_event\<close>: nothing was written and the session is as
  active as it was; a flush failed, nothing was written and the session is no longer
  active; a row was updated; a row was inserted.
\<close>

lemma save_event_shapes:
  obtains
    (unchanged) e where "save_event now_created now db d = (Inl e, db)"
      "is_active db \<Longrightarrow> e = KeyError \<or> e = TypeError"
  | (failed) e where "is_active db" "e = StatementError \<or> e = IntegrityError"
      "save_event now_created now db d = (Inl e, db\<lparr>is_active := False\<rparr>)"
  | (updated) u ex where "is_active db" "map_of d ''ticket_url'' = Some u"
      "check_duplicate db u = Inr (Some ex)"
      "snd (save_event now_created now db d) =
         db\<lparr>table := map (\<lambda>r. if getattr r ''id'' = getattr ex ''id''
                   then persisted (setattr (set_fields d ex) ''updated_at'' (VTime now)) else r)
                 (table db)\<rparr>"
      "table_ok (table (snd (save_event now_created now db d)))"
      "fst (save_event now_created now db d) =
         (case map_of d ''title'' of None \<Rightarrow> Inl KeyError
          | Some t \<Rightarrow> Inr (setattr (set_fields d ex) ''updated_at'' (VTime now)))"
  | (inserted) u where "is_active db" "map_of d ''ticket_url'' = Some u"
      "check_duplicate db u = Inr None" "Event_init d = Inr d"
      "snd (save_event now_created now db d) =
         db\<lparr>table := table db @ [inserted now_created now (table db) d]\<rparr>"
      "table_ok (table (snd (save_event now_created now db d)))"
      "fst (save_event now_created now db d) =
         (case map_of d ''title'' of None \<Rightarrow> Inl KeyError
          | Some t \<Rightarrow> Inr (refreshed (inserted now_created now (table db) d) d))"
proof (cases "map_of d ''ticket_url''")
  case None
  then have "save_event now_created now db d = (Inl KeyError, db)" by (simp add: save_event_def)
  then show ?thesis by (rule unchanged) simp
next
  case (Some u)
  note u = this
  show ?thesis
  proof (cases "is_active db")
    case False
    with u have "save_event now_created now db d = (Inl PendingRollbackError, db)"
      by (simp add: save_event_def check_duplicate_inactive)
    then show ?thesis by (rule unchanged) (use False in simp)
  next
    case True
    note act = this
    show ?thesis
    proof (cases "find (\<lambda>e. getattr e ''ticket_url'' = u) (table db)")
      case (Some ex)
      with act have dup: "check_duplicate db u = Inr (Some ex)" by (simp add: check_duplicate_active)
      let ?rows = "map (\<lambda>r. if getattr r ''id'' = getattr ex ''id''
                   then persisted (setattr (set_fields d ex) ''updated_at'' (VTime now)) else r)
                 (table db)"
      from act show ?thesis
      proof (cases rule: commit_cases[of db ?rows])
        case flushed
        from u dup flushed(2)
        have s: "snd (save_event now_created now db d) = db\<lparr>table := ?rows\<rparr>"
          and f: "fst (save_event now_created now db d) =
            (case map_of d ''title'' of None \<Rightarrow> Inl KeyError
             | Some t \<Rightarrow> Inr (setattr (set_fields d ex) ''updated_at'' (VTime now)))"
          by (simp_all add: save_event_def Let_def split: option.splits)
        from flushed(1) s have ok: "table_ok (table (snd (save_event now_created now db d)))" by simp
        show ?thesis by (rule updated[OF act u dup s ok f])
      next
        case (failed e)
        from u dup failed(3)
        have "save_event now_created now db d = (Inl e, db\<lparr>is_active := False\<rparr>)"
          by (simp add: save_event_def Let_def)
        with act failed(2) show ?thesis by (intro that(2)[of e])
      qed
    next
      case None
      with act have new: "check_duplicate db u = Inr None" by (simp add: check_duplicate_active)
      show ?thesis
      proof (cases "Event_init d")
        case (Inl e)
        then have e: "e = TypeError" by (simp add: Event_init_def split: if_splits)
        from u new Inl have "save_event now_created now db d = (Inl e, db)"
          by (simp add: save_event_def)
        then show ?thesis by (rule unchanged) (use e in simp)
      next
        case (Inr d')
        then have ei: "Event_init d = Inr d" by (simp add: Event_init_def split: if_splits)
        let ?rows = "table db @ [inserted now_created now (table db) d]"
        from act show ?thesis
        proof (cases rule: commit_cases[of db ?rows])
          case flushed
          from u new ei flushed(2)
          have s: "snd (save_event now_created now db d) = db\<lparr>table := ?rows\<rparr>"
            and f: "fst (save_event now_created now db d) =
              (case map_of d ''title'' of None \<Rightarrow> Inl KeyError
               | Some t \<Rightarrow> Inr (refreshed (inserted now_created now (table db) d) d))"
            by (simp_all add: save_event_def Let_def split: option.splits)
          from flushed(1) s have ok: "table_ok (table (snd (save_event now_created now db d)))"
            by simp
          show ?thesis by (rule inserted[OF act u new ei s ok f])
        next
          case (failed e)
          from u new ei failed(3)
          have "save_event now_created now db d = (Inl e, db\<lparr>is_active := False\<rparr>)"
            by (simp add: save_event_def Let_def)
          with act failed(2) show ?thesis by (intro that(2)[of e])
        qed
      qed
    qed
  qed
qed

text \<open>The same with only the table in view.\<close>

lemma save_event_cases:
  obtains
    (unchanged) "table (snd (save_event now_created now db d)) = table db"
  | (updated) u ex where "map_of d ''ticket_url'' = Some u" "check_duplicate db u = Inr (Some ex)"
      "table (snd (save_event now_created now db d)) =
         map (\<lambda>r. if getattr r ''id'' = getattr ex ''id''
                   then persisted (setattr (set_fields d ex) ''updated_at'' (VTime now)) else r)
           (table db)"
      "table_ok (table (snd (save_event now_created now db d)))"
  | (inserted) u where "map_of d ''ticket_url'' = Some u" "check_duplicate db u = Inr None"
      "Event_init d = Inr d"
      "table (snd (save_event now_created now db d)) =
         table db @ [inserted now_created now (table db) d]"
      "table_ok (table (snd (save_event now_created now db d)))"
proof (cases rule: save_event_shapes[of now_created now db d])
  case (unchanged e)
  then have "table (snd (save_event now_created now db d)) = table db" by simp
  then show ?thesis by (rule that(1))
next
  case (failed e)
  then have "table (snd (save_event now_created now db d)) = table db" by simp
  then show ?thesis by (rule that(1))
next
  case (updated u ex)
  from updated(4) have "table (snd (save_event now_created now db d)) =
         map (\<lambda>r. if getattr r ''id'' = getattr ex ''id''
                   then persisted (setattr (set_fields d ex) ''updated_at'' (VTime now)) else r)
           (table db)" by simp
  with updated(2,3) show ?thesis using updated(5) by (rule that(2))
next
  case (inserted u)
  from inserted(5) have "table (snd (save_event now_created now db d)) =
         table db @ [inserted now_created now (table db) d]" by simp
  with inserted(2,3,4) show ?thesis using inserted(6) by (rule that(3))
qed

lemma save_event_is_active:
  "is_active (snd (save_event now_created now db d)) \<Longrightarrow> is_active db"
  by (cases rule: save_event_shapes[of now_created now db d]) simp_all

lemma save_event_inactive:
  "\<not> is_active db \<Longrightarrow> save_event now_created now db d =
     (Inl (case map_of d ''ticket_url'' of None \<Rightarrow> KeyError | Some u \<Rightarrow> PendingRollbackError), db)"
  by (simp add: save_event_def check_duplicate_inactive split: option.splits)

section \<open>Cards without an anchor\<close>











lemma run_inactive:
  "\<not> is_active db \<Longrightarrow> run self now now_upd created_clock clock scrape db = (Inr 0, db)"
  by (simp add: run_def mark_expired_events_inactive)

lemma run_active:
  "is_active db \<Longrightarrow>
   run self now now_upd created_clock clock scrape db =
     (case scrape of
        Inl err \<Rightarrow> (Inr 0, snd (mark_expired_events self now now_upd db))
      | Inr events \<Rightarrow>
          (Inr (fst (save_events self created_clock clock 0 events 0
                       (snd (mark_expired_events self now now_upd db)))),
           snd (save_events self created_clock clock 0 events 0
                  (snd (mark_expired_events self now now_upd db)))))"
  by (simp add: run_def mark_expired_events_active split_beta split: sum.splits)

lemma save_events_inactive:
  "\<not> is_active db \<Longrightarrow> save_events self created_clock clock i events n db = (n, db)"
proof (induction events arbitrary: i)
  case Nil
  show ?case by simp
next
  case (Cons d events)
  from Cons.prems show ?case
    by (simp add: save_event_inactive[OF Cons.prems] Cons.IH[OF Cons.prems])
qed

text \<open>The session after \<open>run\<close>, whether the session was active or not.\<close>

lemma run_session:
  "snd (run self now now_upd created_clock clock (Inr events) db) =
     snd (save_events self created_clock clock 0 events 0
            (snd (mark_expired_events self now now_upd db)))"
proof (cases "is_active db")
  case True
  then show ?thesis by (simp add: run_active)
next
  case False
  then show ?thesis
    by (simp add: run_inactive mark_expired_events_inactive save_events_inactive)
qed




lemmas save_defs = run_def save_event_def check_duplicate_def Event_init_def inserted_def
  commit_def table_ok_def row_ok_def row_typed_def not_null_columns_def datetime_columns_def
  columns_def class_attributes_def column_default_def next_id_def refreshed_def
  getattr_def setattr_def set_fields_def persisted_def mark_expired_events_def sweep_filter_def
  SessionLocal_def



section \<open>Upsert by ticket url\<close>

lemma is_candidateD:
  assumes "is_candidate d"
  shows "distinct (map fst d)"
    and "\<And>k. k \<in> fst ` set d \<Longrightarrow> k \<in> set candidate_fields"
    and "\<And>c. c \<in> {''title'', ''ticket_url'', ''date_time'', ''location'', ''source''} \<Longrightarrow>
             \<exists>v. (c, v) \<in> set d \<and> v \<noteq> VNone \<and> map_of d c = Some v"
proof -
  from assms show dist: "distinct (map fst d)" by (simp add: is_candidate_def is_dict_def)
  from assms have "\<forall>p\<in>set d. fst p \<in> set candidate_fields"
    by (auto simp: is_candidate_def list_all_iff)
  then show "\<And>k. k \<in> fst ` set d \<Longrightarrow> k \<in> set candidate_fields" by auto
  fix c :: string
  assume "c \<in> {''title'', ''ticket_url'', ''date_time'', ''location'', ''source''}"
  with assms have "getattr d c \<noteq> VNone" by (auto simp: is_candidate_def split: val.splits)
  then obtain v where "map_of d c = Some v" "v \<noteq> VNone"
    by (auto simp: getattr_def split: option.splits)
  then show "\<exists>v. (c, v) \<in> set d \<and> v \<noteq> VNone \<and> map_of d c = Some v"
    by (auto dest: map_of_SomeD)
qed

lemma candidate_not_key:
  "is_candidate d \<Longrightarrow> k \<in> {''id'', ''created_at'', ''updated_at'', ''expires_at'', ''click_count''} \<Longrightarrow>
     k \<notin> fst ` set d"
  by (auto dest!: is_candidateD(2) simp: candidate_fields_def)

lemma candidate_fields_columns: "k \<in> set candidate_fields \<Longrightarrow> k \<in> set columns"
  by (auto simp: candidate_fields_def columns_def)

lemma map_of_dict:
  "distinct (map fst d) \<Longrightarrow> (k, v) \<in> set d \<Longrightarrow> map_of d k = Some v"
  by simp

lemma distinct_filter_eq:
  "distinct (map f xs) \<Longrightarrow> x \<in> set xs \<Longrightarrow> filter (\<lambda>y. f y = f x) xs = [x]"
proof (induction xs)
  case Nil
  then show ?case by simp
next
  case (Cons a xs)
  show ?case
  proof (cases "a = x")
    case True
    with Cons.prems have "f x \<notin> f ` set xs" by simp
    then have "\<forall>y\<in>set xs. f y \<noteq> f x" by (metis image_eqI)
    then have "filter (\<lambda>y. f y = f x) xs = []" by (simp add: filter_empty_conv)
    with True show ?thesis by simp
  next
    case False
    with Cons.prems have "x \<in> set xs" "distinct (map f xs)" "f a \<noteq> f x" by auto
    with Cons.IH show ?thesis by simp
  qed
qed

lemma distinct_key_unique:
  "distinct (map f xs) \<Longrightarrow> x \<in> set xs \<Longrightarrow> y \<in> set xs \<Longrightarrow> f x = f y \<Longrightarrow> x = y"
  by (meson distinct_map inj_onD)

lemma next_id_bound:
  "r \<in> set db \<Longrightarrow> getattr r ''id'' = VInt n \<Longrightarrow>
     n \<le> fold (\<lambda>e m. case getattr e ''id'' of VInt n \<Rightarrow> max n m | _ \<Rightarrow> m) db m0"
proof (induction db arbitrary: m0)
  case Nil
  then show ?case by simp
next
  case (Cons a db)
  have mono: "m0 \<le> fold (\<lambda>e m. case getattr e ''id'' of VInt n \<Rightarrow> max n m | _ \<Rightarrow> m) db m0" for m0 db
  proof (induction db arbitrary: m0)
    case Nil
    show ?case by simp
  next
    case (Cons a db)
    show ?case
    proof (cases "getattr a ''id''")
      case (VInt k)
      have "m0 \<le> max k m0" by simp
      also note Cons.IH[of "max k m0"]
      finally show ?thesis using VInt by simp
    qed (simp_all add: Cons.IH)
  qed
  show ?case
  proof (cases "r = a")
    case True
    with Cons.prems(2) mono[of "max n m0" db] show ?thesis by simp
  next
    case False
    with Cons.prems have "r \<in> set db" by simp
    from Cons.IH[OF this Cons.prems(2)] show ?thesis by simp
  qed
qed

lemma next_id_fresh: "r \<in> set db \<Longrightarrow> getattr r ''id'' \<noteq> VInt (next_id db)"
  using next_id_bound[of r db "next_id db" 0] by (auto simp: next_id_def)

lemma table_okD:
  assumes "table_ok db"
  shows "\<And>r. r \<in> set db \<Longrightarrow> row_ok r"
    and "distinct (map (\<lambda>e. getattr e ''id'') db)"
    and "distinct (map (\<lambda>e. getattr e ''ticket_url'') db)"
    and "\<And>r. r \<in> set db \<Longrightarrow> row_typed r"
  using assms by (auto simp: table_ok_def list_all_iff)

lemma row_ok_iff:
  "row_ok e \<longleftrightarrow> (\<forall>c\<in>set not_null_columns. getattr e c \<noteq> VNone)"
  by (simp add: row_ok_def list_all_iff)

lemma candidate_required:
  assumes d: "is_candidate d"
  obtains vt vu vd vl vs where
    "(''title'', vt) \<in> set d" "vt \<noteq> VNone"
    "(''ticket_url'', vu) \<in> set d" "vu \<noteq> VNone"
    "(''date_time'', vd) \<in> set d" "vd \<noteq> VNone"
    "(''location'', vl) \<in> set d" "vl \<noteq> VNone"
    "(''source'', vs) \<in> set d" "vs \<noteq> VNone"
proof -
  obtain vt where 1: "(''title'', vt) \<in> set d" "vt \<noteq> VNone"
    using is_candidateD(3)[OF d, of "''title''"] by auto
  obtain vu where 2: "(''ticket_url'', vu) \<in> set d" "vu \<noteq> VNone"
    using is_candidateD(3)[OF d, of "''ticket_url''"] by auto
  obtain vd where 3: "(''date_time'', vd) \<in> set d" "vd \<noteq> VNone"
    using is_candidateD(3)[OF d, of "''date_time''"] by auto
  obtain vl where 4: "(''location'', vl) \<in> set d" "vl \<noteq> VNone"
    using is_candidateD(3)[OF d, of "''location''"] by auto
  obtain vs where 5: "(''source'', vs) \<in> set d" "vs \<noteq> VNone"
    using is_candidateD(3)[OF d, of "''source''"] by auto
  from 1 2 3 4 5 show ?thesis by (rule that)
qed

lemma candidate_date_time:
  assumes "is_candidate d"
  obtains t where "(''date_time'', VTime t) \<in> set d"
proof -
  from assms obtain t where "getattr d ''date_time'' = VTime t"
    by (auto simp: is_candidate_def split: val.splits)
  then have "map_of d ''date_time'' = Some (VTime t)"
    by (auto simp: getattr_def split: option.splits)
  then have "(''date_time'', VTime t) \<in> set d" by (rule map_of_SomeD)
  then show ?thesis by (rule that)
qed

lemma row_typed_iff:
  "row_typed e \<longleftrightarrow>
     (\<forall>c\<in>set datetime_columns. getattr e c = VNone \<or> (\<exists>t. getattr e c = VTime t))"
proof -
  have "(case v of VNone \<Rightarrow> True | VTime t \<Rightarrow> True | _ \<Rightarrow> False) \<longleftrightarrow>
        v = VNone \<or> (\<exists>t. v = VTime t)" for v
    by (cases v) simp_all
  then show ?thesis by (simp add: row_typed_def list_all_iff)
qed

text \<open>The row that an update writes.\<close>

lemma updated_row:
  fixes d ex now
  defines "row \<equiv> persisted (setattr (set_fields d ex) ''updated_at'' (VTime now))"
  assumes d: "is_candidate d"
  shows "getattr row ''id'' = getattr ex ''id''"
    and "getattr row ''ticket_url'' = getattr ex ''ticket_url''"
    and "getattr row ''updated_at'' = VTime now"
    and "\<And>k v. (k, v) \<in> set d \<Longrightarrow> k \<noteq> ''ticket_url'' \<Longrightarrow> getattr row k = v"
    and "\<And>k. k \<in> set columns \<Longrightarrow> k \<notin> fst ` set d \<Longrightarrow> k \<noteq> ''updated_at'' \<Longrightarrow>
             getattr row k = getattr ex k"
proof -
  have idk: "''id'' \<notin> fst ` set d" by (rule candidate_not_key[OF d]) simp
  show "getattr row ''id'' = getattr ex ''id''"
    by (simp add: row_def getattr_persisted columns_def getattr_setattr getattr_set_fields_other[OF idk])
  show "getattr row ''ticket_url'' = getattr ex ''ticket_url''"
    by (simp add: row_def getattr_persisted columns_def getattr_setattr getattr_set_fields_ticket_url)
  show "getattr row ''updated_at'' = VTime now"
    by (simp add: row_def getattr_persisted columns_def getattr_setattr)
  show "getattr row k = v" if kv: "(k, v) \<in> set d" and k: "k \<noteq> ''ticket_url''" for k v
  proof -
    from kv have kd: "k \<in> fst ` set d" by force
    from is_candidateD(2)[OF d kd] have kc: "k \<in> set columns" by (rule candidate_fields_columns)
    have "''updated_at'' \<notin> fst ` set d" by (rule candidate_not_key[OF d]) simp
    with kd have ku: "k \<noteq> ''updated_at''" by blast
    from getattr_set_fields_supplied[OF is_candidateD(1)[OF d] kv k] kc ku
    show ?thesis by (simp add: row_def getattr_persisted getattr_setattr)
  qed
  show "getattr row k = getattr ex k"
    if "k \<in> set columns" "k \<notin> fst ` set d" "k \<noteq> ''updated_at''" for k
    using that by (simp add: row_def getattr_persisted getattr_setattr getattr_set_fields_other)
qed

lemma updated_row_ok:
  assumes d: "is_candidate d" and ex: "row_ok ex"
  shows "row_ok (persisted (setattr (set_fields d ex) ''updated_at'' (VTime now)))"
proof -
  let ?row = "persisted (setattr (set_fields d ex) ''updated_at'' (VTime now))"
  note r = updated_row[where d=d and ex=ex and now=now, OF d]
  from candidate_required[OF d] obtain vt vu vd vl vs where v:
    "(''title'', vt) \<in> set d" "vt \<noteq> VNone"
    "(''ticket_url'', vu) \<in> set d" "vu \<noteq> VNone"
    "(''date_time'', vd) \<in> set d" "vd \<noteq> VNone"
    "(''location'', vl) \<in> set d" "vl \<noteq> VNone"
    "(''source'', vs) \<in> set d" "vs \<noteq> VNone" .
  have s1: "getattr ?row ''title'' \<noteq> VNone" using r(4)[OF v(1)] v(2) by simp
  have s2: "getattr ?row ''date_time'' \<noteq> VNone" using r(4)[OF v(5)] v(6) by simp
  have s3: "getattr ?row ''location'' \<noteq> VNone" using r(4)[OF v(7)] v(8) by simp
  have s4: "getattr ?row ''source'' \<noteq> VNone" using r(4)[OF v(9)] v(10) by simp
  from ex have e: "getattr ex ''id'' \<noteq> VNone" "getattr ex ''ticket_url'' \<noteq> VNone"
    by (simp_all add: row_ok_iff not_null_columns_def)
  from e r(1,2) have i: "getattr ?row ''id'' \<noteq> VNone" "getattr ?row ''ticket_url'' \<noteq> VNone"
    by simp_all
  show ?thesis
    unfolding row_ok_def not_null_columns_def using s1 s2 s3 s4 i by (simp only: list.pred_inject simp_thms)
qed

lemma updated_row_typed:
  assumes d: "is_candidate d" and ex: "row_typed ex"
  shows "row_typed (persisted (setattr (set_fields d ex) ''updated_at'' (VTime now)))"
proof -
  let ?row = "persisted (setattr (set_fields d ex) ''updated_at'' (VTime now))"
  note r = updated_row[where d=d and ex=ex and now=now, OF d]
  from candidate_date_time[OF d] obtain t where t: "(''date_time'', VTime t) \<in> set d" .
  from ex have e: "getattr ex ''created_at'' = VNone \<or> (\<exists>t. getattr ex ''created_at'' = VTime t)"
    "getattr ex ''expires_at'' = VNone \<or> (\<exists>t. getattr ex ''expires_at'' = VTime t)"
    by (simp_all add: row_typed_iff datetime_columns_def)
  have c: "''created_at'' \<notin> fst ` set d" "''expires_at'' \<notin> fst ` set d"
    by (rule candidate_not_key[OF d], simp)+
  have 1: "getattr ?row ''date_time'' = VTime t" using r(4)[OF t] by simp
  have 2: "getattr ?row ''created_at'' = getattr ex ''created_at''"
    by (rule r(5)[OF _ c(1)]) (simp_all add: columns_def)
  have 3: "getattr ?row ''expires_at'' = getattr ex ''expires_at''"
    by (rule r(5)[OF _ c(2)]) (simp_all add: columns_def)
  show ?thesis
    unfolding row_typed_iff datetime_columns_def using 1 2 3 r(3) e by simp
qed

lemma replace_by_id:
  assumes ids: "distinct (map (\<lambda>e. getattr e ''id'') db)" and ex: "ex \<in> set db"
  shows "map (\<lambda>r. if getattr r ''id'' = getattr ex ''id'' then row else r) db =
         map (\<lambda>r. if r = ex then row else r) db"
proof (rule map_cong[OF refl])
  fix r assume "r \<in> set db"
  with distinct_key_unique[OF ids this ex] show
    "(if getattr r ''id'' = getattr ex ''id'' then row else r) = (if r = ex then row else r)"
    by auto
qed

lemma map_key_replace:
  "f row = f ex \<Longrightarrow> map f (map (\<lambda>r. if r = ex then row else r) db) = map f db"
  by (induction db) auto

lemma update_table_ok:
  assumes ok: "table_ok db" and d: "is_candidate d" and ex: "ex \<in> set db"
  shows "table_ok (map (\<lambda>r. if getattr r ''id'' = getattr ex ''id''
            then persisted (setattr (set_fields d ex) ''updated_at'' (VTime now)) else r) db)"
proof -
  let ?row = "persisted (setattr (set_fields d ex) ''updated_at'' (VTime now))"
  note t = table_okD[OF ok]
  note r = updated_row[where d=d and ex=ex and now=now, OF d]
  have eq: "map (\<lambda>r. if getattr r ''id'' = getattr ex ''id'' then ?row else r) db =
            map (\<lambda>r. if r = ex then ?row else r) db"
    by (rule replace_by_id[OF t(2) ex])
  have "row_ok ?row" by (rule updated_row_ok[OF d t(1)[OF ex]])
  with t(1) have "list_all row_ok (map (\<lambda>r. if r = ex then ?row else r) db)"
    by (auto simp: list_all_iff)
  moreover have "row_typed ?row" by (rule updated_row_typed[OF d t(4)[OF ex]])
  with t(4) have "list_all row_typed (map (\<lambda>r. if r = ex then ?row else r) db)"
    by (auto simp: list_all_iff)
  moreover have "distinct (map (\<lambda>e. getattr e ''id'') (map (\<lambda>r. if r = ex then ?row else r) db))"
  proof -
    have "map (\<lambda>e. getattr e ''id'') (map (\<lambda>r. if r = ex then ?row else r) db) =
          map (\<lambda>e. getattr e ''id'') db"
      by (rule map_key_replace) (rule r(1))
    with t(2) show ?thesis by (simp only:)
  qed
  moreover have "distinct (map (\<lambda>e. getattr e ''ticket_url'') (map (\<lambda>r. if r = ex then ?row else r) db))"
  proof -
    have "map (\<lambda>e. getattr e ''ticket_url'') (map (\<lambda>r. if r = ex then ?row else r) db) =
          map (\<lambda>e. getattr e ''ticket_url'') db"
      by (rule map_key_replace) (rule r(2))
    with t(3) show ?thesis by (simp only:)
  qed
  ultimately show ?thesis unfolding eq by (simp add: table_ok_def)
qed

text \<open>The row that an insert writes.\<close>

lemma inserted_row:
  fixes d now_created now db
  defines "row \<equiv> inserted now_created now db d"
  assumes d: "is_candidate d"
  shows "getattr row ''id'' = VInt (next_id db)"
    and "getattr row ''created_at'' = VTime now_created"
    and "getattr row ''updated_at'' = VTime now"
    and "getattr row ''expires_at'' = VNone"
    and "getattr row ''click_count'' = VInt 0"
    and "\<And>k v. (k, v) \<in> set d \<Longrightarrow> getattr row k = v"
proof -
  have none: "map_of d k = None"
    if "k \<in> {''id'', ''created_at'', ''updated_at'', ''expires_at'', ''click_count''}" for k
    using candidate_not_key[OF d that] by (simp add: map_of_eq_None_iff)
  show "getattr row ''id'' = VInt (next_id db)"
    by (simp add: row_def getattr_inserted columns_def none column_default_def)
  show "getattr row ''created_at'' = VTime now_created"
    by (simp add: row_def getattr_inserted columns_def none column_default_def)
  show "getattr row ''updated_at'' = VTime now"
    by (simp add: row_def getattr_inserted columns_def none column_default_def)
  show "getattr row ''expires_at'' = VNone"
    by (simp add: row_def getattr_inserted columns_def none column_default_def)
  show "getattr row ''click_count'' = VInt 0"
    by (simp add: row_def getattr_inserted columns_def none column_default_def)
  show "getattr row k = v" if kv: "(k, v) \<in> set d" for k v
  proof -
    from kv have kd: "k \<in> fst ` set d" by force
    from is_candidateD(2)[OF d kd] have kf: "k \<in> set candidate_fields" .
    then have kc: "k \<in> set columns" by (rule candidate_fields_columns)
    from kf have def: "column_default now_created now db k = VNone"
      by (auto simp: candidate_fields_def column_default_def)
    from map_of_dict[OF is_candidateD(1)[OF d] kv] kc def
    show ?thesis by (simp add: row_def getattr_inserted)
  qed
qed

lemma insert_table_ok:
  assumes ok: "table_ok db" and d: "is_candidate d"
    and u: "map_of d ''ticket_url'' = Some u"
    and new: "\<forall>r\<in>set db. getattr r ''ticket_url'' \<noteq> u"
  shows "table_ok (db @ [inserted now_created now db d])"
proof -
  let ?row = "inserted now_created now db d"
  note t = table_okD[OF ok]
  note r = inserted_row[where d=d and now_created=now_created and now=now and db=db, OF d]
  from u have ud: "(''ticket_url'', u) \<in> set d" by (rule map_of_SomeD)
  from candidate_required[OF d] obtain vt vu vd vl vs where v:
    "(''title'', vt) \<in> set d" "vt \<noteq> VNone"
    "(''ticket_url'', vu) \<in> set d" "vu \<noteq> VNone"
    "(''date_time'', vd) \<in> set d" "vd \<noteq> VNone"
    "(''location'', vl) \<in> set d" "vl \<noteq> VNone"
    "(''source'', vs) \<in> set d" "vs \<noteq> VNone" .
  have s1: "getattr ?row ''title'' \<noteq> VNone" using r(6)[OF v(1)] v(2) by simp
  have s2: "getattr ?row ''ticket_url'' \<noteq> VNone" using r(6)[OF v(3)] v(4) by simp
  have s3: "getattr ?row ''date_time'' \<noteq> VNone" using r(6)[OF v(5)] v(6) by simp
  have s4: "getattr ?row ''location'' \<noteq> VNone" using r(6)[OF v(7)] v(8) by simp
  have s5: "getattr ?row ''source'' \<noteq> VNone" using r(6)[OF v(9)] v(10) by simp
  from r(1) have i: "getattr ?row ''id'' \<noteq> VNone" by simp
  have "row_ok ?row"
    unfolding row_ok_def not_null_columns_def using s1 s2 s3 s4 s5 i by (simp only: list.pred_inject simp_thms)
  with t(1) have "list_all row_ok (db @ [?row])" by (auto simp: list_all_iff)
  moreover have "row_typed ?row"
  proof -
    from candidate_date_time[OF d] obtain t where "(''date_time'', VTime t) \<in> set d" .
    from r(6)[OF this] r(2,3,4) show ?thesis
      unfolding row_typed_iff datetime_columns_def by simp
  qed
  with t(4) have "list_all row_typed (db @ [?row])" by (auto simp: list_all_iff)
  moreover have "distinct (map (\<lambda>e. getattr e ''id'') (db @ [?row]))"
  proof -
    have "getattr ?row ''id'' \<notin> (\<lambda>e. getattr e ''id'') ` set db"
    proof
      assume "getattr ?row ''id'' \<in> (\<lambda>e. getattr e ''id'') ` set db"
      then obtain e where e: "e \<in> set db" "getattr e ''id'' = getattr ?row ''id''" by force
      from next_id_fresh[OF e(1)] e(2) r(1) show False by simp
    qed
    with t(2) show ?thesis by simp
  qed
  moreover have "distinct (map (\<lambda>e. getattr e ''ticket_url'') (db @ [?row]))"
  proof -
    from new have "u \<notin> (\<lambda>e. getattr e ''ticket_url'') ` set db" by blast
    with t(3) r(6)[OF ud] show ?thesis by simp
  qed
  ultimately show ?thesis by (simp add: table_ok_def)
qed

lemma candidate_Event_init: "is_candidate d \<Longrightarrow> Event_init d = Inr d"
  by (auto simp: Event_init_def class_attributes_def list_all_iff
      dest!: is_candidateD(2) candidate_fields_columns)

lemma candidate_refreshed: "is_candidate d \<Longrightarrow> refreshed row d = row"
proof -
  assume "is_candidate d"
  then have "\<forall>p\<in>set d. fst p \<in> set columns"
    using is_candidateD(2) candidate_fields_columns by (metis image_eqI)
  then have "filter (\<lambda>(k, v). k \<notin> set columns) d = []"
    by (auto simp: filter_empty_conv)
  then show ?thesis by (simp add: refreshed_def)
qed

lemma save_event_table_ok:
  "table_ok (table db) \<Longrightarrow> table_ok (table (snd (save_event now_created now db d)))"
  by (cases rule: save_event_cases[of now_created now db d]) simp_all

text \<open>What \<open>run\<close> hands to \<open>save_event\<close> for a card of either extractor is a candidate.\<close>

lemma resolve_img_shape: "resolve_img self src = VNone \<or> (\<exists>s. resolve_img self src = VStr s)"
  by (simp add: resolve_img_def split: option.splits)

lemma Eventbrite_extract_shape:
  "Eventbrite_extract_event_data self strptime now c = Some d \<Longrightarrow>
     \<exists>ttl url t loc desc img.
       d = [(''title'', VStr ttl), (''ticket_url'', VStr url), (''date_time'', VTime t),
            (''location'', VStr loc), (''description'', desc), (''image_url'', img)] \<and>
       (desc = VNone \<or> (\<exists>s. desc = VStr s)) \<and> (img = VNone \<or> (\<exists>s. img = VStr s))"
proof (cases "c (ByNameHref ''a'')")
  case None
  assume "Eventbrite_extract_event_data self strptime now c = Some d"
  with None show ?thesis by (simp add: Eventbrite_extract_event_data_def Let_def)
next
  case (Some link_elem)
  assume a: "Eventbrite_extract_event_data self strptime now c = Some d"
  define desc where "desc = (case or_else (c (ByName ''p'')) (c (ByNameClass ''div'' ''description'')) of
                       Some desc_elem \<Rightarrow> VStr (take 500 (get_text desc_elem))
                     | None \<Rightarrow> VNone)"
  define img where "img = (case c (ByName ''img'') of
                       Some img_elem \<Rightarrow>
                         resolve_img self (str_or (Tag_get img_elem ''src'') (Tag_get img_elem ''data-src''))
                     | None \<Rightarrow> VNone)"
  from a Some have d: "\<exists>ttl url t loc.
      d = [(''title'', VStr ttl), (''ticket_url'', VStr url), (''date_time'', VTime t),
           (''location'', VStr loc), (''description'', desc), (''image_url'', img)]"
    unfolding desc_def img_def by (auto simp: Eventbrite_extract_event_data_def Let_def)
  have "desc = VNone \<or> (\<exists>s. desc = VStr s)" unfolding desc_def by (simp split: option.splits)
  moreover have "img = VNone \<or> (\<exists>s. img = VStr s)"
    unfolding img_def using resolve_img_shape by (simp split: option.splits)
  ultimately show ?thesis using d by blast
qed

lemma TimeOut_extract_shape:
  "TimeOut_extract_event_data self strptime now c = Some d \<Longrightarrow>
     \<exists>ttl url t loc desc img.
       d = [(''title'', VStr ttl), (''ticket_url'', VStr url), (''date_time'', VTime t),
            (''location'', VStr loc), (''description'', desc), (''image_url'', img)] \<and>
       (desc = VNone \<or> (\<exists>s. desc = VStr s)) \<and> (img = VNone \<or> (\<exists>s. img = VStr s))"
proof (cases "c (ByNameHref ''a'')")
  case None
  assume "TimeOut_extract_event_data self strptime now c = Some d"
  with None show ?thesis by (simp add: TimeOut_extract_event_data_def Let_def)
next
  case (Some link_elem)
  assume a: "TimeOut_extract_event_data self strptime now c = Some d"
  define desc where "desc = (case or_else (or_else (c (ByName ''p''))
                                     (c (ByNameClass ''div'' ''description'')))
                            (c (ByNameClass ''div'' ''summary'')) of
                       Some desc_elem \<Rightarrow> VStr (take 500 (get_text desc_elem))
                     | None \<Rightarrow> VNone)"
  define img where "img = (case c (ByName ''img'') of
                       Some img_elem \<Rightarrow>
                         resolve_img self
                           (str_or (str_or (Tag_get img_elem ''src'') (Tag_get img_elem ''data-src''))
                              (Tag_get img_elem ''data-lazy-src''))
                     | None \<Rightarrow> VNone)"
  from a Some have d: "\<exists>ttl url t loc.
      d = [(''title'', VStr ttl), (''ticket_url'', VStr url), (''date_time'', VTime t),
           (''location'', VStr loc), (''description'', desc), (''image_url'', img)]"
    unfolding desc_def img_def by (auto simp: TimeOut_extract_event_data_def Let_def)
  have "desc = VNone \<or> (\<exists>s. desc = VStr s)" unfolding desc_def by (simp split: option.splits)
  moreover have "img = VNone \<or> (\<exists>s. img = VStr s)"
    unfolding img_def using resolve_img_shape by (simp split: option.splits)
  ultimately show ?thesis using d by blast
qed

lemma stamped_extract_is_candidate:
  assumes "Eventbrite_extract_event_data self strptime now c = Some d \<or>
           TimeOut_extract_event_data self strptime now c = Some d"
  shows "is_candidate (AList.update ''source'' (VStr n) d)"
proof -
  from assms have "\<exists>ttl url t loc desc img.
       d = [(''title'', VStr ttl), (''ticket_url'', VStr url), (''date_time'', VTime t),
            (''location'', VStr loc), (''description'', desc), (''image_url'', img)] \<and>
       (desc = VNone \<or> (\<exists>s. desc = VStr s)) \<and> (img = VNone \<or> (\<exists>s. img = VStr s))"
    by (rule disjE) (erule Eventbrite_extract_shape, erule TimeOut_extract_shape)
  then obtain ttl url t loc desc img where
    d: "d = [(''title'', VStr ttl), (''ticket_url'', VStr url), (''date_time'', VTime t),
          (''location'', VStr loc), (''description'', desc), (''image_url'', img)]"
    and desc: "desc = VNone \<or> (\<exists>s. desc = VStr s)" and img: "img = VNone \<or> (\<exists>s. img = VStr s)"
    by (elim exE conjE)
  from desc img show ?thesis
    unfolding d by (auto simp: is_candidate_def is_dict_def candidate_fields_def getattr_def)
qed

lemma filter_singleton_find:
  "filter P xs = [x] \<Longrightarrow> find P xs = Some x"
proof (induction xs)
  case Nil
  then show ?case by simp
next
  case (Cons a xs)
  show ?case
  proof (cases "P a")
    case True
    with Cons.prems show ?thesis by simp
  next
    case False
    with Cons.prems Cons.IH show ?thesis by simp
  qed
qed

lemma save_event_update:
  fixes now :: int and now_created :: int
  assumes act: "is_active db" and ok: "table_ok (table db)" and d: "is_candidate d"
    and u: "map_of d ''ticket_url'' = Some u" and dup: "check_duplicate db u = Inr (Some ex)"
  defines "obj \<equiv> setattr (set_fields d ex) ''updated_at'' (VTime now)"
  defines "rows' \<equiv> map (\<lambda>r. if r = ex then persisted obj else r) (table db)"
  shows "save_event now_created now db d = (Inr obj, db\<lparr>table := rows'\<rparr>)"
    and "table_ok rows'"
    and "filter (\<lambda>r. getattr r ''ticket_url'' = u) rows' = [persisted obj]"
    and "\<And>k v. (k, v) \<in> set d \<Longrightarrow> getattr (persisted obj) k = v"
    and "getattr (persisted obj) ''updated_at'' = VTime now"
    and "length rows' = length (table db)"
    and "\<And>k. k \<in> set columns \<Longrightarrow> k \<notin> fst ` set d \<Longrightarrow> k \<noteq> ''updated_at'' \<Longrightarrow>
            getattr (persisted obj) k = getattr ex k"
    and "\<And>i. i < length (table db) \<Longrightarrow> table db ! i \<noteq> ex \<Longrightarrow> rows' ! i = table db ! i"
proof -
  note t = table_okD[OF ok]
  note r = updated_row[where d=d and ex=ex and now=now, OF d, folded obj_def]
  from check_duplicate_Some[OF dup] have ex: "ex \<in> set (table db)" "getattr ex ''ticket_url'' = u"
    by simp_all
  have eq: "map (\<lambda>r. if getattr r ''id'' = getattr ex ''id'' then persisted obj else r) (table db) = rows'"
    unfolding rows'_def by (rule replace_by_id[OF t(2) ex(1)])
  from update_table_ok[OF ok d ex(1), of now] show ok': "table_ok rows'"
    unfolding eq[symmetric] obj_def .
  from candidate_required[OF d] obtain vt where "(''title'', vt) \<in> set d" by blast
  with is_candidateD(1)[OF d] have title: "map_of d ''title'' = Some vt" by simp
  have tk: "table_ok (map (\<lambda>r. if getattr r ''id'' = getattr ex ''id''
      then persisted (setattr (set_fields d ex) ''updated_at'' (VTime now)) else r) (table db))"
    using ok' unfolding eq[symmetric] obj_def .
  then have ty: "list_all row_typed (map (\<lambda>r. if getattr r ''id'' = getattr ex ''id''
      then persisted (setattr (set_fields d ex) ''updated_at'' (VTime now)) else r) (table db))"
    by (simp add: table_ok_def)
  show "save_event now_created now db d = (Inr obj, db\<lparr>table := rows'\<rparr>)"
    unfolding eq[symmetric] obj_def using u dup title tk ty act
    by (simp add: save_event_def Let_def commit_def)
  show "filter (\<lambda>r. getattr r ''ticket_url'' = u) rows' = [persisted obj]"
  proof -
    have "filter (\<lambda>r. getattr r ''ticket_url'' = u) rows' =
          map (\<lambda>r. if r = ex then persisted obj else r)
            (filter (\<lambda>r. getattr r ''ticket_url'' = u) (table db))"
      unfolding rows'_def filter_map o_def
      by (rule arg_cong[where f="map _"], rule filter_cong[OF refl]) (simp add: r(2) ex(2))
    also have "filter (\<lambda>r. getattr r ''ticket_url'' = u) (table db) = [ex]"
      using distinct_filter_eq[OF t(3) ex(1)] ex(2) by simp
    finally show ?thesis by simp
  qed
  show "getattr (persisted obj) k = v" if kv: "(k, v) \<in> set d" for k v
  proof (cases "k = ''ticket_url''")
    case True
    with kv is_candidateD(1)[OF d] u have "v = u" by simp
    with True r(2) ex(2) show ?thesis by simp
  next
    case False
    from r(4)[OF kv False] show ?thesis .
  qed
  show "getattr (persisted obj) ''updated_at'' = VTime now" by (rule r(3))
  show "length rows' = length (table db)" by (simp add: rows'_def)
  show "getattr (persisted obj) k = getattr ex k"
    if "k \<in> set columns" "k \<notin> fst ` set d" "k \<noteq> ''updated_at''" for k
    using that by (rule r(5))
  show "rows' ! i = table db ! i" if "i < length (table db)" "table db ! i \<noteq> ex" for i
    using that by (simp add: rows'_def)
qed

lemma save_event_insert:
  fixes now :: int and now_created :: int
  assumes act: "is_active db" and ok: "table_ok (table db)" and d: "is_candidate d"
    and u: "map_of d ''ticket_url'' = Some u" and new: "check_duplicate db u = Inr None"
  defines "obj \<equiv> inserted now_created now (table db) d"
  shows "save_event now_created now db d = (Inr obj, db\<lparr>table := table db @ [obj]\<rparr>)"
    and "table_ok (table db @ [obj])"
    and "filter (\<lambda>r. getattr r ''ticket_url'' = u) (table db @ [obj]) = [obj]"
    and "\<And>k v. (k, v) \<in> set d \<Longrightarrow> getattr obj k = v"
    and "getattr obj ''updated_at'' = VTime now"
    and "getattr obj ''created_at'' = VTime now_created"
    and "getattr obj ''expires_at'' = VNone"
    and "persisted obj = obj"
proof -
  note r = inserted_row[where d=d and now_created=now_created and now=now and db="table db", OF d,
      folded obj_def]
  from new have none: "\<forall>r\<in>set (table db). getattr r ''ticket_url'' \<noteq> u"
    by (simp add: check_duplicate_None)
  from insert_table_ok[OF ok d u none, of now_created now] show ok': "table_ok (table db @ [obj])"
    unfolding obj_def .
  then have ty: "list_all row_typed (table db @ [obj])" by (simp add: table_ok_def)
  from candidate_required[OF d] obtain vt where "(''title'', vt) \<in> set d" by blast
  with is_candidateD(1)[OF d] have title: "map_of d ''title'' = Some vt" by simp
  show "save_event now_created now db d = (Inr obj, db\<lparr>table := table db @ [obj]\<rparr>)"
    using u new title ok' ty act candidate_Event_init[OF d] candidate_refreshed[OF d]
    by (simp add: save_event_def Let_def commit_def obj_def)
  from u have ud: "(''ticket_url'', u) \<in> set d" by (rule map_of_SomeD)
  from none have "filter (\<lambda>r. getattr r ''ticket_url'' = u) (table db) = []"
    by (simp add: filter_empty_conv)
  with r(6)[OF ud] show "filter (\<lambda>r. getattr r ''ticket_url'' = u) (table db @ [obj]) = [obj]"
    by simp
  show "getattr obj k = v" if "(k, v) \<in> set d" for k v using that by (rule r(6))
  show "getattr obj ''updated_at'' = VTime now" by (rule r(3))
  show "getattr obj ''created_at'' = VTime now_created" by (rule r(2))
  show "getattr obj ''expires_at'' = VNone" by (rule r(4))
  show "persisted obj = obj" unfolding obj_def by (rule persisted_inserted)
qed

lemma save_event_step:
  assumes act: "is_active db" and ok: "table_ok (table db)" and d: "is_candidate d"
    and u: "map_of d ''ticket_url'' = Some u"
  shows "\<exists>obj db'.
      save_event now_created now db d = (Inr obj, db') \<and> is_active db' \<and> table_ok (table db') \<and>
      filter (\<lambda>r. getattr r ''ticket_url'' = u) (table db') = [persisted obj] \<and>
      (\<forall>(k, v)\<in>set d. getattr (persisted obj) k = v) \<and>
      getattr (persisted obj) ''updated_at'' = VTime now \<and>
      (\<forall>ex. check_duplicate db u = Inr (Some ex) \<longrightarrow>
         length (table db') = length (table db) \<and>
         (\<forall>k\<in>set columns. k \<notin> fst ` set d \<and> k \<noteq> ''updated_at'' \<longrightarrow>
            getattr (persisted obj) k = getattr ex k) \<and>
         (\<forall>i<length (table db). table db ! i \<noteq> ex \<longrightarrow> table db' ! i = table db ! i)) \<and>
      (check_duplicate db u = Inr None \<longrightarrow>
         table db' = table db @ [persisted obj] \<and>
         getattr (persisted obj) ''created_at'' = VTime now_created)"
proof (cases "find (\<lambda>e. getattr e ''ticket_url'' = u) (table db)")
  case None
  with act have new: "check_duplicate db u = Inr None" by (simp add: check_duplicate_active)
  note i = save_event_insert[where now=now and now_created=now_created, OF act ok d u new]
  let ?obj = "inserted now_created now (table db) d"
  let ?db' = "db\<lparr>table := table db @ [?obj]\<rparr>"
  have a: "is_active ?db'" using act by simp
  have t: "table ?db' = table db @ [?obj]" by simp
  show ?thesis
    apply (rule exI[of _ ?obj], rule exI[of _ ?db'])
    unfolding t using i new a by (auto simp only: i(8) simp_thms sum.inject option.simps)
next
  case (Some ex)
  with act have dup: "check_duplicate db u = Inr (Some ex)" by (simp add: check_duplicate_active)
  note s = save_event_update(1)[where now=now and now_created=now_created, OF act ok d u dup]
    save_event_update(2-8)[where now=now, OF act ok d u dup]
  let ?obj = "setattr (set_fields d ex) ''updated_at'' (VTime now)"
  let ?db' = "db\<lparr>table := map (\<lambda>r. if r = ex then persisted ?obj else r) (table db)\<rparr>"
  have a: "is_active ?db'" using act by simp
  have t: "table ?db' = map (\<lambda>r. if r = ex then persisted ?obj else r) (table db)" by simp
  show ?thesis
    apply (rule exI[of _ ?obj], rule exI[of _ ?db'])
    unfolding t using s dup a by (auto simp only: simp_thms sum.inject option.simps)
qed

text \<open>
  Claim C1. In an active session on a table that satisfies its constraints, \<open>save_event\<close> of
  a candidate returns an object and leaves exactly one row with the candidate's
  \<open>ticket_url\<close>, the row of that object, which bears every field the candidate supplies and
  \<open>updated_at\<close> set to the current time. When a row with that \<open>ticket_url\<close> existed, the table
  keeps its length, the columns the candidate does not supply keep the existing values and
  the other rows are untouched; when none existed, the row is appended with \<open>created_at\<close>
  set to the current time. Ingesting a second candidate with the same \<open>ticket_url\<close>
  afterwards keeps the length of the table and leaves exactly one row for that
  \<open>ticket_url\<close>, with the second candidate's fields, the same \<open>ticket_url\<close> and \<open>created_at\<close>,
  and \<open>updated_at\<close> at the time of the second ingestion.
\<close>

theorem save_event_upsert:
  assumes "is_active db" and "table_ok (table db)" and "is_candidate d"
    and "map_of d ''ticket_url'' = Some u"
  shows "\<exists>obj db'.
      save_event now_created now db d = (Inr obj, db') \<and> is_active db' \<and> table_ok (table db') \<and>
      filter (\<lambda>r. getattr r ''ticket_url'' = u) (table db') = [persisted obj] \<and>
      (\<forall>(k, v)\<in>set d. getattr (persisted obj) k = v) \<and>
      getattr (persisted obj) ''updated_at'' = VTime now \<and>
      (\<forall>ex. check_duplicate db u = Inr (Some ex) \<longrightarrow>
         length (table db') = length (table db) \<and>
         (\<forall>k\<in>set columns. k \<notin> fst ` set d \<and> k \<noteq> ''updated_at'' \<longrightarrow>
            getattr (persisted obj) k = getattr ex k) \<and>
         (\<forall>i<length (table db). table db ! i \<noteq> ex \<longrightarrow> table db' ! i = table db ! i)) \<and>
      (check_duplicate db u = Inr None \<longrightarrow>
         table db' = table db @ [persisted obj] \<and>
         getattr (persisted obj) ''created_at'' = VTime now_created) \<and>
      (\<forall>d2 now_created2 now2. is_candidate d2 \<and> map_of d2 ''ticket_url'' = Some u \<longrightarrow>
         (\<exists>obj2 db2.
            save_event now_created2 now2 db' d2 = (Inr obj2, db2) \<and>
            length (table db2) = length (table db') \<and>
            filter (\<lambda>r. getattr r ''ticket_url'' = u) (table db2) = [persisted obj2] \<and>
            (\<forall>(k, v)\<in>set d2. getattr (persisted obj2) k = v) \<and>
            getattr (persisted obj2) ''ticket_url'' = u \<and>
            getattr (persisted obj2) ''updated_at'' = VTime now2 \<and>
            getattr (persisted obj2) ''created_at'' = getattr (persisted obj) ''created_at''))"
proof -
  from save_event_step[OF assms, of now_created now] obtain obj db' where
    s: "save_event now_created now db d = (Inr obj, db')" and act': "is_active db'" and
    ok': "table_ok (table db')" and
    f: "filter (\<lambda>r. getattr r ''ticket_url'' = u) (table db') = [persisted obj]" and
    r1: "\<forall>(k, v)\<in>set d. getattr (persisted obj) k = v" and
    r2: "getattr (persisted obj) ''updated_at'' = VTime now" and
    r3: "\<forall>ex. check_duplicate db u = Inr (Some ex) \<longrightarrow>
         length (table db') = length (table db) \<and>
         (\<forall>k\<in>set columns. k \<notin> fst ` set d \<and> k \<noteq> ''updated_at'' \<longrightarrow>
            getattr (persisted obj) k = getattr ex k) \<and>
         (\<forall>i<length (table db). table db ! i \<noteq> ex \<longrightarrow> table db' ! i = table db ! i)" and
    r4: "check_duplicate db u = Inr None \<longrightarrow>
         table db' = table db @ [persisted obj] \<and>
         getattr (persisted obj) ''created_at'' = VTime now_created"
    by (elim exE conjE) (rule that; assumption)
  have dup: "check_duplicate db' u = Inr (Some (persisted obj))"
    unfolding check_duplicate_active[OF act'] using filter_singleton_find[OF f] by simp
  have second: "\<forall>d2 now_created2 now2. is_candidate d2 \<and> map_of d2 ''ticket_url'' = Some u \<longrightarrow>
         (\<exists>obj2 db2.
            save_event now_created2 now2 db' d2 = (Inr obj2, db2) \<and>
            length (table db2) = length (table db') \<and>
            filter (\<lambda>r. getattr r ''ticket_url'' = u) (table db2) = [persisted obj2] \<and>
            (\<forall>(k, v)\<in>set d2. getattr (persisted obj2) k = v) \<and>
            getattr (persisted obj2) ''ticket_url'' = u \<and>
            getattr (persisted obj2) ''updated_at'' = VTime now2 \<and>
            getattr (persisted obj2) ''created_at'' = getattr (persisted obj) ''created_at'')"
  proof (intro allI impI)
    fix d2 now_created2 now2
    assume a: "is_candidate d2 \<and> map_of d2 ''ticket_url'' = Some u"
    then have d2: "is_candidate d2" and u2: "map_of d2 ''ticket_url'' = Some u" by simp_all
    note n = save_event_update(1)[where now=now2 and now_created=now_created2, OF act' ok' d2 u2 dup]
      save_event_update(2-8)[where now=now2, OF act' ok' d2 u2 dup]
    let ?obj2 = "setattr (set_fields d2 (persisted obj)) ''updated_at'' (VTime now2)"
    let ?rows2 = "map (\<lambda>r. if r = persisted obj then persisted ?obj2 else r) (table db')"
    let ?db2 = "db'\<lparr>table := ?rows2\<rparr>"
    have t: "table ?db2 = ?rows2" by simp
    from u2 have ud: "(''ticket_url'', u) \<in> set d2" by (rule map_of_SomeD)
    have c: "''created_at'' \<notin> fst ` set d2" by (rule candidate_not_key[OF d2]) simp
    have cr: "getattr (persisted ?obj2) ''created_at'' = getattr (persisted obj) ''created_at''"
      by (rule n(7)[OF _ c]) (simp_all add: columns_def)
    have all: "\<forall>(k, v)\<in>set d2. getattr (persisted ?obj2) k = v" using n(4) by auto
    show "\<exists>obj2 db2.
            save_event now_created2 now2 db' d2 = (Inr obj2, db2) \<and>
            length (table db2) = length (table db') \<and>
            filter (\<lambda>r. getattr r ''ticket_url'' = u) (table db2) = [persisted obj2] \<and>
            (\<forall>(k, v)\<in>set d2. getattr (persisted obj2) k = v) \<and>
            getattr (persisted obj2) ''ticket_url'' = u \<and>
            getattr (persisted obj2) ''updated_at'' = VTime now2 \<and>
            getattr (persisted obj2) ''created_at'' = getattr (persisted obj) ''created_at''"
      unfolding t[symmetric]
      apply (intro exI[of _ ?obj2] exI[of _ ?db2] conjI)
      unfolding t
      by (rule n(1) n(6) n(3) all n(4)[OF ud] n(5) cr)+
  qed
  show ?thesis
    by (intro exI[of _ obj] exI[of _ db'] conjI) (rule s act' ok' f r1 r2 r3 r4 second)+
qed

lemma ex_table_ok: "table_ok ex_table"
  by (simp add: table_ok_def row_ok_def row_typed_def not_null_columns_def datetime_columns_def
      getattr_def ex_table_def ex_row_def)

lemma ex_session: "is_active (SessionLocal rows)" "table (SessionLocal rows) = rows"
  by (simp_all add: SessionLocal_def)

lemma ex_candidate_ok: "is_candidate (ex_candidate ttl)"
  by (simp add: is_candidate_def is_dict_def candidate_fields_def getattr_def ex_candidate_def)

lemma ex_candidate_url: "map_of (ex_candidate ttl) ''ticket_url'' = Some (VStr ''https://x/e9'')"
  by (simp add: ex_candidate_def)

theorem save_event_upsert_witness:
  "is_active (SessionLocal ex_table) \<and> table_ok (table (SessionLocal ex_table)) \<and>
   is_candidate (ex_candidate ''A'') \<and> is_candidate (ex_candidate ''A-updated'') \<and>
   (\<exists>r. filter (\<lambda>r. getattr r ''ticket_url'' = VStr ''https://x/e9'')
            (table (snd (save_event 19 20
                           (snd (save_event 9 10 (SessionLocal ex_table) (ex_candidate ''A'')))
                           (ex_candidate ''A-updated'')))) = [r] \<and>
        getattr r ''title'' = VStr ''A-updated'' \<and>
        getattr r ''ticket_url'' = VStr ''https://x/e9'' \<and>
        getattr r ''updated_at'' = VTime 20 \<and>
        getattr r ''created_at'' = VTime 9)"
proof -
  let ?u = "VStr ''https://x/e9''"
  let ?db = "SessionLocal ex_table"
  have ok: "table_ok (table ?db)" unfolding ex_session by (rule ex_table_ok)
  have new: "check_duplicate ?db ?u = Inr None"
    by (simp add: check_duplicate_def SessionLocal_def getattr_def ex_table_def ex_row_def)
  from save_event_upsert[OF ex_session(1) ok ex_candidate_ok[of "''A''"] ex_candidate_url,
      where now_created=9 and now=10]
  obtain obj db' where
    s: "save_event 9 10 ?db (ex_candidate ''A'') = (Inr obj, db')" and
    r4: "check_duplicate ?db ?u = Inr None \<longrightarrow>
         table db' = table ?db @ [persisted obj] \<and> getattr (persisted obj) ''created_at'' = VTime 9" and
    second: "\<forall>d2 now_created2 now2. is_candidate d2 \<and> map_of d2 ''ticket_url'' = Some ?u \<longrightarrow>
         (\<exists>obj2 db2.
            save_event now_created2 now2 db' d2 = (Inr obj2, db2) \<and>
            length (table db2) = length (table db') \<and>
            filter (\<lambda>r. getattr r ''ticket_url'' = ?u) (table db2) = [persisted obj2] \<and>
            (\<forall>(k, v)\<in>set d2. getattr (persisted obj2) k = v) \<and>
            getattr (persisted obj2) ''ticket_url'' = ?u \<and>
            getattr (persisted obj2) ''updated_at'' = VTime now2 \<and>
            getattr (persisted obj2) ''created_at'' = getattr (persisted obj) ''created_at'')"
    by (elim exE conjE) (rule that; assumption)
  from second[rule_format, of "ex_candidate ''A-updated''" 19 20] ex_candidate_ok ex_candidate_url
  obtain obj2 db2 where
    s2: "save_event 19 20 db' (ex_candidate ''A-updated'') = (Inr obj2, db2)" and
    f2: "filter (\<lambda>r. getattr r ''ticket_url'' = ?u) (table db2) = [persisted obj2]" and
    a2: "\<forall>(k, v)\<in>set (ex_candidate ''A-updated''). getattr (persisted obj2) k = v" and
    u2: "getattr (persisted obj2) ''ticket_url'' = ?u" and
    t2: "getattr (persisted obj2) ''updated_at'' = VTime 20" and
    c2: "getattr (persisted obj2) ''created_at'' = getattr (persisted obj) ''created_at''"
    by blast
  from a2 have ttl: "getattr (persisted obj2) ''title'' = VStr ''A-updated''"
    by (simp add: ex_candidate_def)
  from r4 new c2 have cr: "getattr (persisted obj2) ''created_at'' = VTime 9" by simp
  from s s2 have "snd (save_event 19 20 (snd (save_event 9 10 ?db (ex_candidate ''A'')))
                    (ex_candidate ''A-updated'')) = db2" by simp
  with f2 ttl u2 t2 cr ok ex_session(1) ex_candidate_ok show ?thesis by blast
qed

section \<open>Expiration is monotonic\<close>

lemma nth_replace:
  "i < length db \<Longrightarrow> map (\<lambda>r. if r = ex then row else r) db ! i = (if db ! i = ex then row else db ! i)"
  by simp

lemma save_event_expires_at:
  assumes ok: "table_ok (table db)" and k: "''expires_at'' \<notin> fst ` set d"
  shows "length (table db) \<le> length (table (snd (save_event now_created now db d)))"
    and "\<And>i. i < length (table db) \<Longrightarrow>
           getattr (table (snd (save_event now_created now db d)) ! i) ''expires_at'' =
           getattr (table db ! i) ''expires_at''"
    and "\<And>i. length (table db) \<le> i \<Longrightarrow> i < length (table (snd (save_event now_created now db d))) \<Longrightarrow>
           getattr (table (snd (save_event now_created now db d)) ! i) ''expires_at'' = VNone"
proof -
  let ?db' = "table (snd (save_event now_created now db d))"
  have "length (table db) \<le> length ?db' \<and>
        (\<forall>i<length (table db). getattr (?db' ! i) ''expires_at'' = getattr (table db ! i) ''expires_at'') \<and>
        (\<forall>i. length (table db) \<le> i \<and> i < length ?db' \<longrightarrow> getattr (?db' ! i) ''expires_at'' = VNone)"
  proof (cases rule: save_event_cases[of now_created now db d])
    case unchanged
    then show ?thesis by auto
  next
    case (updated u ex)
    let ?row = "persisted (setattr (set_fields d ex) ''updated_at'' (VTime now))"
    from check_duplicate_Some[OF updated(2)] have ex: "ex \<in> set (table db)" by simp
    have eq: "?db' = map (\<lambda>r. if r = ex then ?row else r) (table db)"
      unfolding updated(3) by (rule replace_by_id[OF table_okD(2)[OF ok] ex])
    have row: "getattr ?row ''expires_at'' = getattr ex ''expires_at''"
      by (simp add: getattr_persisted columns_def getattr_setattr getattr_set_fields_other[OF k])
    show ?thesis unfolding eq using row by (auto simp: nth_replace)
  next
    case (inserted u)
    from k have "map_of d ''expires_at'' = None" by (simp add: map_of_eq_None_iff)
    then have row: "getattr (inserted now_created now (table db) d) ''expires_at'' = VNone"
      by (simp add: getattr_inserted columns_def column_default_def)
    show ?thesis unfolding inserted(4) using row
      by (auto simp: nth_append less_Suc_eq_le dest: le_antisym)
  qed
  then show "length (table db) \<le> length ?db'"
    and "\<And>i. i < length (table db) \<Longrightarrow>
           getattr (?db' ! i) ''expires_at'' = getattr (table db ! i) ''expires_at''"
    and "\<And>i. length (table db) \<le> i \<Longrightarrow> i < length ?db' \<Longrightarrow>
           getattr (?db' ! i) ''expires_at'' = VNone"
    by blast+
qed

lemma sweep_table:
  "table (snd (mark_expired_events self now now_upd db)) =
     (if is_active db
      then map (\<lambda>e. if sweep_filter (source_name self) (now - timedelta_days 1) e
                     then setattr (setattr e ''expires_at'' (VTime now)) ''updated_at'' (VTime now_upd)
                     else e) (table db)
      else table db)"
  by (simp add: mark_expired_events_active mark_expired_events_inactive)

lemma sweep_table_ok:
  assumes "table_ok (table db)"
  shows "table_ok (table (snd (mark_expired_events self now now_upd db)))"
proof (cases "is_active db")
  case False
  with assms show ?thesis by (simp add: sweep_table)
next
  case True
  let ?g = "\<lambda>e. if sweep_filter (source_name self) (now - timedelta_days 1) e
                 then setattr (setattr e ''expires_at'' (VTime now)) ''updated_at'' (VTime now_upd)
                 else e"
  have keep: "getattr (?g e) c = getattr e c" if "c \<in> set not_null_columns" for e c
    using that by (auto simp: getattr_setattr not_null_columns_def)
  have db': "table (snd (mark_expired_events self now now_upd db)) = map ?g (table db)"
    using True by (simp add: sweep_table)
  have ids: "map (\<lambda>e. getattr e ''id'') (map ?g (table db)) = map (\<lambda>e. getattr e ''id'') (table db)"
    using keep[of "''id''"] by (simp add: not_null_columns_def)
  have tus: "map (\<lambda>e. getattr e ''ticket_url'') (map ?g (table db)) =
             map (\<lambda>e. getattr e ''ticket_url'') (table db)"
    using keep[of "''ticket_url''"] by (simp add: not_null_columns_def)
  have rk: "row_ok (?g e)" if "row_ok e" for e
    using that keep[of _ e] unfolding row_ok_iff by metis
  have rt: "row_typed (?g e)" if "row_typed e" for e
    using that unfolding row_typed_iff by (auto simp: getattr_setattr)
  have "list_all row_ok (map ?g (table db))"
    unfolding list_all_iff
  proof
    fix x assume "x \<in> set (map ?g (table db))"
    then obtain e where e: "e \<in> set (table db)" "x = ?g e" unfolding set_map by blast
    from rk[OF table_okD(1)[OF assms e(1)] ] e(2) show "row_ok x" by (simp only:)
  qed
  moreover have "list_all row_typed (map ?g (table db))"
    unfolding list_all_iff
  proof
    fix x assume "x \<in> set (map ?g (table db))"
    then obtain e where e: "e \<in> set (table db)" "x = ?g e" unfolding set_map by blast
    from rt[OF table_okD(4)[OF assms e(1)] ] e(2) show "row_typed x" by (simp only:)
  qed
  ultimately show ?thesis using table_okD(2,3)[OF assms]
    unfolding db' table_ok_def ids tus by simp
qed

lemma save_events_table_ok:
  "table_ok (table db) \<Longrightarrow>
     table_ok (table (snd (save_events self created_clock clock i events n db)))"
proof (induction events arbitrary: i n db)
  case Nil
  then show ?case by simp
next
  case (Cons d events)
  let ?d = "AList.update ''source'' (VStr (source_name self)) d"
  obtain res db' where s: "save_event (created_clock i) (clock i) db ?d = (res, db')"
    by (cases "save_event (created_clock i) (clock i) db ?d")
  from save_event_table_ok[OF Cons.prems, of "created_clock i" "clock i" ?d] s
  have "table_ok (table db')" by simp
  from Cons.IH[OF this] s show ?case by (cases res) simp_all
qed

lemma stamp_keys: "fst ` set (AList.update ''source'' v d) = insert ''source'' (fst ` set d)"
  by (simp add: dom_update)

lemma save_events_expires_at:
  assumes "table_ok (table db)" and "\<forall>d\<in>set events. ''expires_at'' \<notin> fst ` set d"
  shows "length (table db) \<le> length (table (snd (save_events self created_clock clock i events n db))) \<and>
     (\<forall>j<length (table db).
        getattr (table (snd (save_events self created_clock clock i events n db)) ! j) ''expires_at'' =
        getattr (table db ! j) ''expires_at'')"
  using assms
proof (induction events arbitrary: i n db)
  case Nil
  then show ?case by simp
next
  case (Cons d events)
  let ?d = "AList.update ''source'' (VStr (source_name self)) d"
  obtain res db' where s: "save_event (created_clock i) (clock i) db ?d = (res, db')"
    by (cases "save_event (created_clock i) (clock i) db ?d")
  from Cons.prems(2) have k: "''expires_at'' \<notin> fst ` set ?d" by (simp add: stamp_keys)
  from save_event_table_ok[OF Cons.prems(1), of "created_clock i" "clock i" ?d] s
  have ok': "table_ok (table db')" by simp
  from save_event_expires_at(1,2)[where now="clock i" and now_created="created_clock i",
      OF Cons.prems(1) k] s
  have l: "length (table db) \<le> length (table db')"
    and e: "\<And>j. j < length (table db) \<Longrightarrow>
              getattr (table db' ! j) ''expires_at'' = getattr (table db ! j) ''expires_at''"
    by simp_all
  from Cons.prems(2) have "\<forall>d\<in>set events. ''expires_at'' \<notin> fst ` set d" by simp
  from Cons.IH[OF ok' this] obtain n' where
    ih: "length (table db') \<le> length (table (snd (save_events self created_clock clock (Suc i) events n' db')))"
        "\<forall>j<length (table db').
           getattr (table (snd (save_events self created_clock clock (Suc i) events n' db')) ! j) ''expires_at'' =
           getattr (table db' ! j) ''expires_at''"
    and eq: "snd (save_events self created_clock clock i (d # events) n db) =
             snd (save_events self created_clock clock (Suc i) events n' db')"
    using s by (cases res) auto
  show ?case unfolding eq using ih l e by (auto simp: order_trans)
qed

lemma Eventbrite_extract_keys:
  "Eventbrite_extract_event_data self strptime now c = Some d \<Longrightarrow>
     map fst d = [''title'', ''ticket_url'', ''date_time'', ''location'', ''description'', ''image_url'']"
  by (cases "c (ByNameHref ''a'')") (auto simp: Eventbrite_extract_event_data_def Let_def)

lemma TimeOut_extract_keys:
  "TimeOut_extract_event_data self strptime now c = Some d \<Longrightarrow>
     map fst d = [''title'', ''ticket_url'', ''date_time'', ''location'', ''description'', ''image_url'']"
  by (cases "c (ByNameHref ''a'')") (auto simp: TimeOut_extract_event_data_def Let_def)

lemma extracted_no_expires_at:
  assumes "map fst d = [''title'', ''ticket_url'', ''date_time'', ''location'', ''description'', ''image_url'']"
  shows "''expires_at'' \<notin> fst ` set (AList.update ''source'' v d)"
proof -
  have "fst ` set d = set (map fst d)" by simp
  with assms show ?thesis by (simp add: stamp_keys)
qed

lemma sweep_expires_at:
  "length (table (snd (mark_expired_events self now now_upd db))) = length (table db) \<and>
   (\<forall>i<length (table db).
      getattr (table (snd (mark_expired_events self now now_upd db)) ! i) ''expires_at'' =
        (if is_active db \<and> getattr (table db ! i) ''expires_at'' = VNone \<and>
            sweep_filter (source_name self) (now - timedelta_days 1) (table db ! i)
         then VTime now else getattr (table db ! i) ''expires_at''))"
  by (auto simp: sweep_table getattr_setattr sweep_filter_iff)

text \<open>
  Claim C5. On a table that satisfies its constraints, \<open>save_event\<close> of a dictionary without
  the key \<open>expires_at\<close> leaves the \<open>expires_at\<close> of every existing row as it was, and a row it
  adds has \<open>expires_at\<close> null; the candidates of both extractors, stamped by \<open>run\<close>, have no
  such key. The sweep leaves every \<open>expires_at\<close> that is set as it is and turns a null one
  into nothing but the sweep time. So across a whole \<open>run\<close> an \<open>expires_at\<close> that is set is
  neither cleared nor moved. All of this holds whether the session is active or not.
\<close>

theorem expires_at_monotonic:
  "(table_ok (table db) \<and> ''expires_at'' \<notin> fst ` set d \<longrightarrow>
      length (table db) \<le> length (table (snd (save_event now_created now db d))) \<and>
      (\<forall>i<length (table db).
         getattr (table (snd (save_event now_created now db d)) ! i) ''expires_at'' =
         getattr (table db ! i) ''expires_at'') \<and>
      (\<forall>i. length (table db) \<le> i \<and> i < length (table (snd (save_event now_created now db d))) \<longrightarrow>
         getattr (table (snd (save_event now_created now db d)) ! i) ''expires_at'' = VNone)) \<and>
   (Eventbrite_extract_event_data self strptime t c = Some d0 \<or>
    TimeOut_extract_event_data self strptime t c = Some d0 \<longrightarrow>
      ''expires_at'' \<notin> fst ` set (AList.update ''source'' (VStr (source_name self)) d0)) \<and>
   length (table (snd (mark_expired_events self now now_upd db))) = length (table db) \<and>
   (\<forall>i<length (table db).
      (getattr (table db ! i) ''expires_at'' \<noteq> VNone \<longrightarrow>
         getattr (table (snd (mark_expired_events self now now_upd db)) ! i) ''expires_at'' =
           getattr (table db ! i) ''expires_at'') \<and>
      (getattr (table db ! i) ''expires_at'' = VNone \<longrightarrow>
         getattr (table (snd (mark_expired_events self now now_upd db)) ! i) ''expires_at'' = VNone \<or>
         getattr (table (snd (mark_expired_events self now now_upd db)) ! i) ''expires_at'' = VTime now)) \<and>
   (table_ok (table db) \<and> (\<forall>e\<in>set events. ''expires_at'' \<notin> fst ` set e) \<longrightarrow>
      length (table db) \<le>
        length (table (snd (run self now now_upd created_clock clock (Inr events) db))) \<and>
      (\<forall>i<length (table db). getattr (table db ! i) ''expires_at'' \<noteq> VNone \<longrightarrow>
         getattr (table (snd (run self now now_upd created_clock clock (Inr events) db)) ! i)
           ''expires_at'' = getattr (table db ! i) ''expires_at''))"
proof (intro conjI impI)
  assume a: "table_ok (table db) \<and> ''expires_at'' \<notin> fst ` set d"
  then have ok: "table_ok (table db)" and k: "''expires_at'' \<notin> fst ` set d" by simp_all
  note s = save_event_expires_at[where now=now and now_created=now_created, OF ok k]
  show "length (table db) \<le> length (table (snd (save_event now_created now db d)))" by (rule s(1))
  show "\<forall>i<length (table db).
         getattr (table (snd (save_event now_created now db d)) ! i) ''expires_at'' =
         getattr (table db ! i) ''expires_at''"
    using s(2) by blast
  show "\<forall>i. length (table db) \<le> i \<and> i < length (table (snd (save_event now_created now db d))) \<longrightarrow>
         getattr (table (snd (save_event now_created now db d)) ! i) ''expires_at'' = VNone"
    using s(3) by blast
next
  assume "Eventbrite_extract_event_data self strptime t c = Some d0 \<or>
    TimeOut_extract_event_data self strptime t c = Some d0"
  then have "map fst d0 = [''title'', ''ticket_url'', ''date_time'', ''location'', ''description'', ''image_url'']"
    using Eventbrite_extract_keys TimeOut_extract_keys by blast
  then show "''expires_at'' \<notin> fst ` set (AList.update ''source'' (VStr (source_name self)) d0)"
    by (rule extracted_no_expires_at)
next
  show "length (table (snd (mark_expired_events self now now_upd db))) = length (table db)"
    using sweep_expires_at by blast
next
  show "\<forall>i<length (table db).
      (getattr (table db ! i) ''expires_at'' \<noteq> VNone \<longrightarrow>
         getattr (table (snd (mark_expired_events self now now_upd db)) ! i) ''expires_at'' =
           getattr (table db ! i) ''expires_at'') \<and>
      (getattr (table db ! i) ''expires_at'' = VNone \<longrightarrow>
         getattr (table (snd (mark_expired_events self now now_upd db)) ! i) ''expires_at'' = VNone \<or>
         getattr (table (snd (mark_expired_events self now now_upd db)) ! i) ''expires_at'' = VTime now)"
    using sweep_expires_at[of self now now_upd db] by simp
next
  assume a: "table_ok (table db) \<and> (\<forall>e\<in>set events. ''expires_at'' \<notin> fst ` set e)"
  let ?db1 = "snd (mark_expired_events self now now_upd db)"
  from a sweep_table_ok have ok1: "table_ok (table ?db1)" by blast
  from a have ev: "\<forall>e\<in>set events. ''expires_at'' \<notin> fst ` set e" by simp
  have r: "snd (run self now now_upd created_clock clock (Inr events) db) =
           snd (save_events self created_clock clock 0 events 0 ?db1)"
    by (rule run_session)
  note se = save_events_expires_at[OF ok1 ev, of self created_clock clock 0 0]
  note sw = sweep_expires_at[of self now now_upd db]
  from se sw show "length (table db) \<le>
        length (table (snd (run self now now_upd created_clock clock (Inr events) db)))"
    unfolding r by simp
  show "\<forall>i<length (table db). getattr (table db ! i) ''expires_at'' \<noteq> VNone \<longrightarrow>
         getattr (table (snd (run self now now_upd created_clock clock (Inr events) db)) ! i)
           ''expires_at'' = getattr (table db ! i) ''expires_at''"
    unfolding r using se sw by simp
qed

theorem expires_at_monotonic_witness:
  "table_ok (table (SessionLocal ex_table)) \<and> ''expires_at'' \<notin> fst ` set ex_rescraped \<and>
   getattr (ex_table ! 2) ''ticket_url'' = VStr ''https://x/e3'' \<and>
   getattr (ex_table ! 2) ''expires_at'' = VTime 77 \<and>
   getattr (table (snd (save_event 49 50 (SessionLocal ex_table) ex_rescraped)) ! 2) ''title'' =
     VStr ''C again'' \<and>
   getattr (table (snd (save_event 49 50 (SessionLocal ex_table) ex_rescraped)) ! 2) ''expires_at'' =
     VTime 77 \<and>
   getattr (table (snd (mark_expired_events (TimeOutScraper_init default_settings (Inr robots_read_ok))
                   (timedelta_days 10) (timedelta_days 10) (SessionLocal ex_table))) ! 2)
      ''expires_at'' = VTime 77 \<and>
   getattr (table (snd (run (TimeOutScraper_init default_settings (Inr robots_read_ok))
                   (timedelta_days 10) (timedelta_days 10) (\<lambda>i. 49) (\<lambda>i. 50) (Inr [ex_rescraped])
                   (SessionLocal ex_table))) ! 2)
      ''expires_at'' = VTime 77"
proof -
  let ?S = "TimeOutScraper_init default_settings (Inr robots_read_ok)"
  let ?db = "SessionLocal ex_table"
  note h = expires_at_monotonic[where db="?db" and d=ex_rescraped and now="timedelta_days 10"
      and now_upd="timedelta_days 10" and self="?S" and events="[ex_rescraped]"
      and created_clock="\<lambda>i. 49" and clock="\<lambda>i. 50"]
  note g = expires_at_monotonic[where db="?db" and d=ex_rescraped and now_created=49 and now=50]
  have ok: "table_ok (table ?db)" unfolding ex_session by (rule ex_table_ok)
  have k: "''expires_at'' \<notin> fst ` set ex_rescraped" by (simp add: ex_rescraped_def)
  have len: "length (table ?db) = 4" by (simp add: ex_session ex_table_def)
  have r2: "getattr (ex_table ! 2) ''ticket_url'' = VStr ''https://x/e3''"
    "getattr (ex_table ! 2) ''expires_at'' = VTime 77"
    by (simp_all add: ex_table_def ex_row_def getattr_def)
  from g ok k have
    "\<forall>i<length (table ?db).
         getattr (table (snd (save_event 49 50 ?db ex_rescraped)) ! i) ''expires_at'' =
         getattr (table ?db ! i) ''expires_at''" by blast
  with len r2 have a: "getattr (table (snd (save_event 49 50 ?db ex_rescraped)) ! 2) ''expires_at'' =
      VTime 77"
    by (simp add: ex_session)
  have ttl: "getattr (table (snd (save_event 49 50 ?db ex_rescraped)) ! 2) ''title'' = VStr ''C again''"
    by (simp add: save_defs ex_table_def ex_row_def ex_rescraped_def Let_def)
  from h have "\<forall>i<length (table ?db).
      (getattr (table ?db ! i) ''expires_at'' \<noteq> VNone \<longrightarrow>
         getattr (table (snd (mark_expired_events ?S (timedelta_days 10) (timedelta_days 10) ?db)) ! i)
           ''expires_at'' = getattr (table ?db ! i) ''expires_at'')" by blast
  with len r2 have b: "getattr (table (snd (mark_expired_events ?S (timedelta_days 10)
      (timedelta_days 10) ?db)) ! 2) ''expires_at'' = VTime 77" by (simp add: ex_session)
  from h ok k have "\<forall>i<length (table ?db). getattr (table ?db ! i) ''expires_at'' \<noteq> VNone \<longrightarrow>
         getattr (table (snd (run ?S (timedelta_days 10) (timedelta_days 10) (\<lambda>i. 49) (\<lambda>i. 50)
            (Inr [ex_rescraped]) ?db)) ! i) ''expires_at'' = getattr (table ?db ! i) ''expires_at''"
    by simp
  with len r2 have c: "getattr (table (snd (run ?S (timedelta_days 10) (timedelta_days 10)
      (\<lambda>i. 49) (\<lambda>i. 50) (Inr [ex_rescraped]) ?db)) ! 2) ''expires_at'' = VTime 77"
    by (simp add: ex_session)
  from ok k r2 a ttl b c show ?thesis by (intro conjI)
qed

section \<open>The source stamp\<close>

lemma stamped_dict:
  assumes "is_dict d"
  shows "distinct (map fst (AList.update ''source'' v d))"
    and "(''source'', v) \<in> set (AList.update ''source'' v d)"
    and "map_of (AList.update ''source'' v d) ''source'' = Some v"
proof -
  from assms show "distinct (map fst (AList.update ''source'' v d))"
    by (simp add: is_dict_def distinct_update)
  show m: "map_of (AList.update ''source'' v d) ''source'' = Some v" by (simp add: update_conv')
  then show "(''source'', v) \<in> set (AList.update ''source'' v d)" by (rule map_of_SomeD)
qed

lemma stamped_updated_source:
  assumes "is_dict d"
  shows "getattr (persisted (setattr (set_fields (AList.update ''source'' v d) ex) ''updated_at'' (VTime now)))
           ''source'' = v"
    and "getattr (setattr (set_fields (AList.update ''source'' v d) ex) ''updated_at'' (VTime now))
           ''source'' = v"
  using getattr_set_fields_supplied[OF stamped_dict(1,2)[OF assms], of v ex]
  by (simp_all add: getattr_persisted columns_def getattr_setattr)

lemma stamped_inserted_source:
  "v \<noteq> VNone \<Longrightarrow>
     getattr (inserted now_created now rows (AList.update ''source'' v d)) ''source'' = v"
  by (simp add: getattr_inserted columns_def update_conv')

lemma save_event_Inr:
  assumes "save_event now_created now db d = (Inr obj, db')"
  shows "(\<exists>u ex. map_of d ''ticket_url'' = Some u \<and> check_duplicate db u = Inr (Some ex) \<and>
            obj = setattr (set_fields d ex) ''updated_at'' (VTime now) \<and>
            table db' = map (\<lambda>r. if getattr r ''id'' = getattr ex ''id'' then persisted obj else r)
                          (table db)) \<or>
         (\<exists>u. map_of d ''ticket_url'' = Some u \<and> check_duplicate db u = Inr None \<and>
            obj = refreshed (inserted now_created now (table db) d) d \<and>
            table db' = table db @ [inserted now_created now (table db) d])"
proof (cases rule: save_event_shapes[of now_created now db d])
  case (unchanged e)
  with assms show ?thesis by simp
next
  case (failed e)
  with assms show ?thesis by simp
next
  case (updated u ex)
  from updated(6) assms have "obj = setattr (set_fields d ex) ''updated_at'' (VTime now)"
    by (simp split: option.splits)
  moreover from updated(4) assms have "table db' =
      map (\<lambda>r. if getattr r ''id'' = getattr ex ''id''
                then persisted (setattr (set_fields d ex) ''updated_at'' (VTime now)) else r)
        (table db)" by simp
  ultimately show ?thesis using updated(2,3) by blast
next
  case (inserted u)
  from inserted(7) assms have "obj = refreshed (inserted now_created now (table db) d) d"
    by (simp split: option.splits)
  moreover from inserted(5) assms
  have "table db' = table db @ [inserted now_created now (table db) d]" by simp
  ultimately show ?thesis using inserted(2,3) by blast
qed

lemma save_event_stamped_rows:
  assumes d: "is_dict d"
    and r: "r \<in> set (table (snd (save_event now_created now db (AList.update ''source'' (VStr n) d))))"
  shows "r \<in> set (table db) \<or> getattr r ''source'' = VStr n"
proof (cases rule: save_event_cases[of now_created now db "AList.update ''source'' (VStr n) d"])
  case unchanged
  with r show ?thesis by simp
next
  case (updated u ex)
  from r updated(3) obtain r0 where "r0 \<in> set (table db)"
    "r = (if getattr r0 ''id'' = getattr ex ''id''
          then persisted (setattr (set_fields (AList.update ''source'' (VStr n) d) ex) ''updated_at'' (VTime now))
          else r0)" by auto
  then show ?thesis using stamped_updated_source(1)[OF d, of "VStr n" ex now]
    by (cases "getattr r0 ''id'' = getattr ex ''id''") simp_all
next
  case (inserted u)
  with r stamped_inserted_source[of "VStr n" now_created now "table db" d] show ?thesis by auto
qed

lemma save_event_stamped_result:
  assumes d: "is_dict d"
    and s: "save_event now_created now db (AList.update ''source'' (VStr n) d) = (Inr obj, db')"
  shows "getattr obj ''source'' = VStr n \<and>
     (\<exists>r\<in>set (table db'). getattr r ''ticket_url'' = getattr obj ''ticket_url'' \<and>
                            getattr r ''source'' = VStr n)"
proof -
  let ?d = "AList.update ''source'' (VStr n) d"
  from save_event_Inr[OF s] show ?thesis
  proof (elim disjE exE conjE)
    fix u ex
    assume dup: "check_duplicate db u = Inr (Some ex)"
      and obj: "obj = setattr (set_fields ?d ex) ''updated_at'' (VTime now)"
      and db': "table db' = map (\<lambda>r. if getattr r ''id'' = getattr ex ''id'' then persisted obj else r)
                              (table db)"
    from check_duplicate_Some[OF dup] have "ex \<in> set (table db)" by simp
    then have "persisted obj \<in> set (table db')" unfolding db' by force
    moreover have "getattr (persisted obj) ''ticket_url'' = getattr obj ''ticket_url''"
      by (simp add: getattr_persisted columns_def)
    moreover have "getattr (persisted obj) ''source'' = VStr n" "getattr obj ''source'' = VStr n"
      unfolding obj by (rule stamped_updated_source[OF d])+
    ultimately show ?thesis by blast
  next
    fix u
    let ?row = "inserted now_created now (table db) ?d"
    assume obj: "obj = refreshed ?row ?d" and db': "table db' = table db @ [?row]"
    have src: "getattr ?row ''source'' = VStr n" by (rule stamped_inserted_source) simp
    have "getattr obj ''source'' = getattr ?row ''source''"
      unfolding obj by (rule getattr_refreshed) (simp add: columns_def)
    moreover have "getattr obj ''ticket_url'' = getattr ?row ''ticket_url''"
      unfolding obj by (rule getattr_refreshed) (simp add: columns_def)
    ultimately show ?thesis using src db' by auto
  qed
qed

lemma save_event_keeps_stamped:
  assumes ok: "table_ok (table db)" and d: "is_dict d"
    and r: "\<exists>r\<in>set (table db). getattr r ''ticket_url'' = u \<and> getattr r ''source'' = VStr n"
  shows "\<exists>r\<in>set (table (snd (save_event now_created now db (AList.update ''source'' (VStr n) d)))).
           getattr r ''ticket_url'' = u \<and> getattr r ''source'' = VStr n"
proof (cases rule: save_event_cases[of now_created now db "AList.update ''source'' (VStr n) d"])
  case unchanged
  with r show ?thesis by simp
next
  case (updated u' ex)
  let ?row = "persisted (setattr (set_fields (AList.update ''source'' (VStr n) d) ex) ''updated_at'' (VTime now))"
  from check_duplicate_Some[OF updated(2)] have ex: "ex \<in> set (table db)" by simp
  have eq: "table (snd (save_event now_created now db (AList.update ''source'' (VStr n) d))) =
            map (\<lambda>r. if r = ex then ?row else r) (table db)"
    unfolding updated(3) by (rule replace_by_id[OF table_okD(2)[OF ok] ex])
  from r obtain r0 where r0: "r0 \<in> set (table db)" "getattr r0 ''ticket_url'' = u"
    "getattr r0 ''source'' = VStr n"
    by blast
  have tu: "getattr ?row ''ticket_url'' = getattr ex ''ticket_url''"
    by (simp add: getattr_persisted columns_def getattr_setattr getattr_set_fields_ticket_url)
  show ?thesis
  proof (cases "r0 = ex")
    case True
    from ex have "?row \<in> set (map (\<lambda>r. if r = ex then ?row else r) (table db))" by force
    with tu True r0(2) stamped_updated_source(1)[OF d, of "VStr n" ex now] show ?thesis
      unfolding eq by blast
  next
    case False
    with r0(1) have "r0 \<in> set (map (\<lambda>r. if r = ex then ?row else r) (table db))" by force
    with r0(2,3) show ?thesis unfolding eq by blast
  qed
next
  case (inserted u')
  with r show ?thesis by auto
qed

lemma save_events_keeps_stamped:
  assumes "table_ok (table db)" and "\<forall>d\<in>set events. is_dict d"
    and "\<exists>r\<in>set (table db). getattr r ''ticket_url'' = u \<and> getattr r ''source'' = VStr (source_name self)"
  shows "\<exists>r\<in>set (table (snd (save_events self created_clock clock i events n db))).
           getattr r ''ticket_url'' = u \<and> getattr r ''source'' = VStr (source_name self)"
  using assms
proof (induction events arbitrary: i n db)
  case Nil
  then show ?case by simp
next
  case (Cons d events)
  let ?d = "AList.update ''source'' (VStr (source_name self)) d"
  obtain res db' where s: "save_event (created_clock i) (clock i) db ?d = (res, db')"
    by (cases "save_event (created_clock i) (clock i) db ?d")
  from Cons.prems(2) have d: "is_dict d" and ds: "\<forall>d\<in>set events. is_dict d" by simp_all
  from save_event_table_ok[OF Cons.prems(1), of "created_clock i" "clock i" ?d] s
  have ok': "table_ok (table db')" by simp
  from save_event_keeps_stamped[OF Cons.prems(1) d Cons.prems(3), of "created_clock i" "clock i"] s
  have k: "\<exists>r\<in>set (table db'). getattr r ''ticket_url'' = u \<and>
             getattr r ''source'' = VStr (source_name self)"
    by simp
  from Cons.IH[OF ok' ds k] s show ?case by (cases res) simp_all
qed

lemma save_events_rows_stamped:
  assumes "\<forall>d\<in>set events. is_dict d"
    and "r \<in> set (table (snd (save_events self created_clock clock i events n db)))"
  shows "r \<in> set (table db) \<or> getattr r ''source'' = VStr (source_name self)"
  using assms
proof (induction events arbitrary: i n db)
  case Nil
  then show ?case by simp
next
  case (Cons d events)
  let ?d = "AList.update ''source'' (VStr (source_name self)) d"
  obtain res db' where s: "save_event (created_clock i) (clock i) db ?d = (res, db')"
    by (cases "save_event (created_clock i) (clock i) db ?d")
  from Cons.prems(1) have d: "is_dict d" and ds: "\<forall>d\<in>set events. is_dict d" by simp_all
  from Cons.prems(2) s obtain n' where
    "r \<in> set (table (snd (save_events self created_clock clock (Suc i) events n' db')))"
    by (cases res) auto
  from Cons.IH[OF ds this] show ?case
  proof
    assume "r \<in> set (table db')"
    with s have "r \<in> set (table (snd (save_event (created_clock i) (clock i) db ?d)))" by simp
    from save_event_stamped_rows[OF d this] show ?thesis .
  qed simp
qed

lemma save_events_count_irrelevant:
  "snd (save_events self created_clock clock i events n db) =
   snd (save_events self created_clock clock i events 0 db)"
proof (induction events arbitrary: i n db)
  case Nil
  show ?case by simp
next
  case (Cons d events)
  let ?d = "AList.update ''source'' (VStr (source_name self)) d"
  obtain res db' where s: "save_event (created_clock i) (clock i) db ?d = (res, db')"
    by (cases "save_event (created_clock i) (clock i) db ?d")
  show ?case using s Cons.IH[of "Suc i" "n + 1" db'] Cons.IH[of "Suc i" n db'] Cons.IH[of "Suc i" 1 db']
    by (cases res) simp_all
qed

lemma save_events_append:
  "snd (save_events self created_clock clock i (xs @ ys) n db) =
   snd (save_events self created_clock clock (i + length xs) ys 0
          (snd (save_events self created_clock clock i xs 0 db)))"
proof (induction xs arbitrary: i n db)
  case Nil
  show ?case using save_events_count_irrelevant[of self created_clock clock i ys n db] by simp
next
  case (Cons d xs)
  let ?d = "AList.update ''source'' (VStr (source_name self)) d"
  obtain res db' where s: "save_event (created_clock i) (clock i) db ?d = (res, db')"
    by (cases "save_event (created_clock i) (clock i) db ?d")
  have a: "snd (save_events self created_clock clock i ((d # xs) @ ys) n db) =
           snd (save_events self created_clock clock (Suc i) (xs @ ys) 0 db')"
    using s save_events_count_irrelevant[of self created_clock clock "Suc i" "xs @ ys" _ db']
    by (cases res) simp_all
  have b: "snd (save_events self created_clock clock i (d # xs) 0 db) =
           snd (save_events self created_clock clock (Suc i) xs 0 db')"
    using s save_events_count_irrelevant[of self created_clock clock "Suc i" xs _ db']
    by (cases res) simp_all
  show ?case unfolding a b using Cons.IH[of "Suc i" 0 db'] by simp
qed

lemma run_final_after:
  assumes i: "i < length events"
    and s: "save_event (created_clock i) (clock i)
              (snd (save_events self created_clock clock 0 (take i events) 0 db1))
              (AList.update ''source'' (VStr (source_name self)) (events ! i)) = (res, db'')"
  shows "snd (save_events self created_clock clock 0 events 0 db1) =
         snd (save_events self created_clock clock (Suc i) (drop (Suc i) events) 0 db'')"
proof -
  let ?dbi = "snd (save_events self created_clock clock 0 (take i events) 0 db1)"
  have ev: "events = take i events @ (events ! i # drop (Suc i) events)"
    using i by (simp add: id_take_nth_drop[symmetric])
  have len: "length (take i events) = i" using i by simp
  have "snd (save_events self created_clock clock 0
               (take i events @ (events ! i # drop (Suc i) events)) 0 db1) =
        snd (save_events self created_clock clock (0 + length (take i events))
               (events ! i # drop (Suc i) events) 0 ?dbi)"
    by (rule save_events_append)
  then have "snd (save_events self created_clock clock 0 events 0 db1) =
        snd (save_events self created_clock clock i (events ! i # drop (Suc i) events) 0 ?dbi)"
    unfolding len ev[symmetric] by simp
  also have "\<dots> = snd (save_events self created_clock clock (Suc i) (drop (Suc i) events) 0 db'')"
    using s save_events_count_irrelevant[of self created_clock clock "Suc i" "drop (Suc i) events" _ db'']
    by (cases res) simp_all
  finally show ?thesis .
qed

text \<open>
  Claim C9. When \<open>save_event\<close> of an event stamped by \<open>run\<close> returns, the returned object and
  its row in the table have \<open>source\<close> equal to the scraper's \<open>source_name\<close>, whatever
  \<open>source\<close> the event carried before. After a whole \<open>run\<close> on a table that satisfies its
  constraints, every row is a row of the swept table or has that \<open>source\<close>, and for every
  event whose save returned there is a row with its \<open>ticket_url\<close> and that \<open>source\<close>.
\<close>

theorem run_stamps_source:
  "(is_dict d \<and>
    save_event t_created t db (AList.update ''source'' (VStr (source_name self)) d) = (Inr obj, db') \<longrightarrow>
      getattr obj ''source'' = VStr (source_name self) \<and>
      (\<exists>r\<in>set (table db'). getattr r ''ticket_url'' = getattr obj ''ticket_url'' \<and>
                             getattr r ''source'' = VStr (source_name self))) \<and>
   (table_ok (table db) \<and> (\<forall>e\<in>set events. is_dict e) \<longrightarrow>
      (\<forall>r\<in>set (table (snd (run self now now_upd created_clock clock (Inr events) db))).
         r \<in> set (table (snd (mark_expired_events self now now_upd db))) \<or>
         getattr r ''source'' = VStr (source_name self)) \<and>
      (\<forall>i<length events. \<forall>saved.
         fst (save_event (created_clock i) (clock i)
                (snd (save_events self created_clock clock 0 (take i events) 0
                        (snd (mark_expired_events self now now_upd db))))
                (AList.update ''source'' (VStr (source_name self)) (events ! i))) = Inr saved \<longrightarrow>
         (\<exists>r\<in>set (table (snd (run self now now_upd created_clock clock (Inr events) db))).
            getattr r ''ticket_url'' = getattr saved ''ticket_url'' \<and>
            getattr r ''source'' = VStr (source_name self))))"
proof (intro conjI impI)
  assume "is_dict d \<and>
    save_event t_created t db (AList.update ''source'' (VStr (source_name self)) d) = (Inr obj, db')"
  then have d: "is_dict d"
    and s: "save_event t_created t db (AList.update ''source'' (VStr (source_name self)) d) = (Inr obj, db')"
    by simp_all
  from save_event_stamped_result[OF d s]
  show "getattr obj ''source'' = VStr (source_name self)"
    and "\<exists>r\<in>set (table db'). getattr r ''ticket_url'' = getattr obj ''ticket_url'' \<and>
                    getattr r ''source'' = VStr (source_name self)"
    by simp_all
next
  assume a: "table_ok (table db) \<and> (\<forall>e\<in>set events. is_dict e)"
  let ?db1 = "snd (mark_expired_events self now now_upd db)"
  have r: "snd (run self now now_upd created_clock clock (Inr events) db) =
           snd (save_events self created_clock clock 0 events 0 ?db1)"
    by (rule run_session)
  from a have ev: "\<forall>e\<in>set events. is_dict e" by simp
  show "\<forall>r\<in>set (table (snd (run self now now_upd created_clock clock (Inr events) db))).
         r \<in> set (table ?db1) \<or> getattr r ''source'' = VStr (source_name self)"
    unfolding r using save_events_rows_stamped[OF ev] by blast
next
  assume a: "table_ok (table db) \<and> (\<forall>e\<in>set events. is_dict e)"
  let ?db1 = "snd (mark_expired_events self now now_upd db)"
  have r: "snd (run self now now_upd created_clock clock (Inr events) db) =
           snd (save_events self created_clock clock 0 events 0 ?db1)"
    by (rule run_session)
  from a have ev: "\<forall>e\<in>set events. is_dict e" by simp
  from a sweep_table_ok have ok1: "table_ok (table ?db1)" by blast
  show "\<forall>i<length events. \<forall>saved.
         fst (save_event (created_clock i) (clock i)
                (snd (save_events self created_clock clock 0 (take i events) 0 ?db1))
                (AList.update ''source'' (VStr (source_name self)) (events ! i))) = Inr saved \<longrightarrow>
         (\<exists>r\<in>set (table (snd (run self now now_upd created_clock clock (Inr events) db))).
            getattr r ''ticket_url'' = getattr saved ''ticket_url'' \<and>
            getattr r ''source'' = VStr (source_name self))"
  proof (intro allI impI)
    fix i saved
    let ?dbi = "snd (save_events self created_clock clock 0 (take i events) 0 ?db1)"
    let ?d = "AList.update ''source'' (VStr (source_name self)) (events ! i)"
    assume i: "i < length events"
      and f: "fst (save_event (created_clock i) (clock i) ?dbi ?d) = Inr saved"
    obtain db'' where s: "save_event (created_clock i) (clock i) ?dbi ?d = (Inr saved, db'')"
      using f by (cases "save_event (created_clock i) (clock i) ?dbi ?d") simp
    from ev i have di: "is_dict (events ! i)" by simp
    from ev have rest: "\<forall>e\<in>set (drop (Suc i) events). is_dict e" by (meson in_set_dropD)
    have oki: "table_ok (table ?dbi)" by (rule save_events_table_ok[OF ok1])
    from save_event_table_ok[OF oki, of "created_clock i" "clock i" ?d] s
    have ok'': "table_ok (table db'')" by simp
    from save_event_stamped_result[OF di s]
    have k: "\<exists>r\<in>set (table db''). getattr r ''ticket_url'' = getattr saved ''ticket_url'' \<and>
                getattr r ''source'' = VStr (source_name self)" by simp
    from save_events_keeps_stamped[OF ok'' rest k, of created_clock clock "Suc i" 0]
    show "\<exists>r\<in>set (table (snd (run self now now_upd created_clock clock (Inr events) db))).
            getattr r ''ticket_url'' = getattr saved ''ticket_url'' \<and>
            getattr r ''source'' = VStr (source_name self)"
      unfolding r run_final_after[OF i s] .
  qed
qed

theorem run_stamps_source_witness:
  "table_ok (table (SessionLocal [])) \<and> is_dict ex_foreign \<and>
   getattr ex_foreign ''source'' = VStr ''meetup'' \<and>
   list_all (\<lambda>r. getattr r ''source'' = VStr ''eventbrite'')
     (table (snd (run (EventbriteScraper_init default_settings (Inr robots_read_ok)) 0 0
             (\<lambda>i. 4) (\<lambda>i. 5) (Inr [ex_foreign]) (SessionLocal [])))) \<and>
   table (snd (run (EventbriteScraper_init default_settings (Inr robots_read_ok)) 0 0
          (\<lambda>i. 4) (\<lambda>i. 5) (Inr [ex_foreign]) (SessionLocal []))) \<noteq> []"
proof -
  let ?S = "EventbriteScraper_init default_settings (Inr robots_read_ok)"
  let ?db = "SessionLocal []"
  note h = run_stamps_source[where self="?S" and db="?db" and events="[ex_foreign]" and now=0
      and now_upd=0 and created_clock="\<lambda>i. 4" and clock="\<lambda>i. 5"]
  have n: "source_name ?S = ''eventbrite''" by (simp add: scraper_init_defs)
  have ok: "table_ok (table ?db)" by (simp add: table_ok_def ex_session)
  have d: "is_dict ex_foreign" by (simp add: is_dict_def ex_foreign_def)
  have src: "getattr ex_foreign ''source'' = VStr ''meetup''" by (simp add: getattr_def ex_foreign_def)
  have sw: "table (snd (mark_expired_events ?S 0 0 ?db)) = []"
    by (simp add: sweep_table ex_session)
  from h ok d have "\<forall>r\<in>set (table (snd (run ?S 0 0 (\<lambda>i. 4) (\<lambda>i. 5) (Inr [ex_foreign]) ?db))).
         r \<in> set (table (snd (mark_expired_events ?S 0 0 ?db))) \<or>
         getattr r ''source'' = VStr (source_name ?S)"
    by simp
  then have a: "\<forall>r\<in>set (table (snd (run ?S 0 0 (\<lambda>i. 4) (\<lambda>i. 5) (Inr [ex_foreign]) ?db))).
      getattr r ''source'' = VStr ''eventbrite''"
    unfolding sw n by simp
  have b: "table (snd (run ?S 0 0 (\<lambda>i. 4) (\<lambda>i. 5) (Inr [ex_foreign]) ?db)) \<noteq> []"
    by (simp add: save_defs scraper_init_defs ex_foreign_def default_settings_def Let_def)
  from ok d src a b show ?thesis by (simp add: list_all_iff)
qed

section \<open>Failure isolation\<close>






















end
